theory Spec2Isabelle
  imports Main
begin

section \<open>Data model\<close>

text \<open>
  Modelled from the spec: the type \<^verbatim>\<open>Token\<close>, which \<^verbatim>\<open>src/index.ts\<close> imports from the
  package \<^verbatim>\<open>@jbrower/lexer\<close> and which is not among the sources. The spec has a token as
  an immutable pair of a kind and a payload; the engine reads them as the fields
  \<^verbatim>\<open>key\<close> and \<^verbatim>\<open>data\<close>, and reads nothing else of a token. The payloads of all kinds are
  taken from one type \<open>'d\<close>.
\<close>

type_synonym key = string

datatype 'd Token = Token (key: key) (data: 'd)

text \<open>
  Values produced by rules: a token payload, the arrays built by \<^verbatim>\<open>concat\<close> and the
  repetitions, the tagged record \<^verbatim>\<open>{success, value}\<close> of \<^verbatim>\<open>opt\<close>, and \<^verbatim>\<open>undefined\<close>.
\<close>

datatype 'd val =
    Undefined
  | Data 'd
  | Array "'d val list"
  | OptResult bool "'d val"

text \<open>
  \<^verbatim>\<open>ParseResult\<close> is the pair of the value and the end offset. Offsets are indices into
  the input: the driver starts at 0 and \<^verbatim>\<open>token\<close> adds one, so they are natural numbers.
\<close>

type_synonym 'd ParseResult = "'d val \<times> nat"

text \<open>
  The three errors the engine throws itself, and the \<^verbatim>\<open>TypeError\<close> of JavaScript for a
  property read on \<^verbatim>\<open>undefined\<close> (a name that the registry does not hold).
\<close>

datatype 'd error =
    LoopDetected string
  | FailedToParse
  | NotAllConsumed "'d Token"
  | TypeError

text \<open>
  A computation either has not returned (\<open>None\<close>), or has thrown (\<open>Some (Inl e)\<close>), or has
  returned a value (\<open>Some (Inr x)\<close>). A call of \<^verbatim>\<open>parse\<close> returns a \<^verbatim>\<open>ParseResult\<close> or
  \<^verbatim>\<open>undefined\<close>, so its value type is \<open>'d ParseResult option\<close>.
\<close>

type_synonym ('d, 'a) comp = "('d error + 'a) option"

definition ret :: "'a \<Rightarrow> ('d, 'a) comp" where
  "ret x = Some (Inr x)"

definition throw :: "'d error \<Rightarrow> ('d, 'a) comp" where
  "throw e = Some (Inl e)"

definition andThen :: "('d, 'a) comp \<Rightarrow> ('a \<Rightarrow> ('d, 'b) comp) \<Rightarrow> ('d, 'b) comp" where
  "andThen m f = (case m of None \<Rightarrow> None | Some (Inl e) \<Rightarrow> Some (Inl e) | Some (Inr x) \<Rightarrow> f x)"

text \<open>
  A \<^verbatim>\<open>ParserRule\<close> is a name and a parse function. Every parse function of the engine is a
  closure created by one of the combinators; it is represented by the combinator's tag
  and the variables the closure captures, and applied by \<open>applyInternal\<close> below.
\<close>

datatype 'd ParserRule = ParserRule (name: string) (parseInternal: "'d parseFn")
and 'd parseFn =
    RepFn "'d ParserRule" "'d ParserRule option" nat "nat option"
  | ConcatFn "'d ParserRule list"
  | NotFn "'d ParserRule"
  | OrFn "'d ParserRule list"
  | OrLongestFn "'d ParserRule list"
  | FirstFn "'d ParserRule"
  | LastFn "'d ParserRule"
  | MapFn "'d ParserRule" "'d val \<Rightarrow> 'd val"
  | FilterFn "'d ParserRule" "'d val \<Rightarrow> bool"
  | FilterMapFn "'d ParserRule" "'d val \<Rightarrow> bool"
  | OptFn "'d ParserRule"
  | TokenFn key
  | SubFn key

text \<open>The type of \<^verbatim>\<open>ParserRule.parse\<close>, as the closures see it when they call a sub-rule.\<close>

type_synonym 'd parse =
  "'d ParserRule \<Rightarrow> 'd Token list \<Rightarrow> nat \<Rightarrow> string list \<Rightarrow> ('d, 'd ParseResult option) comp"

record 'd Parser =
  roots :: "key list"
  rules :: "key \<rightharpoonup> 'd ParserRule"

section \<open>Strings\<close>

definition digit :: "nat \<Rightarrow> char" where
  "digit d = ''0123456789'' ! d"

fun show_nat :: "nat \<Rightarrow> string" where
  "show_nat n = (if n < 10 then [digit n] else show_nat (n div 10) @ [digit (n mod 10)])"

declare show_nat.simps [simp del]

fun join :: "string \<Rightarrow> string list \<Rightarrow> string" where
  "join s [] = []"
| "join s [x] = x"
| "join s (x # y # ys) = x @ s @ join s (y # ys)"

text \<open>\<^verbatim>\<open>String.prototype.replace\<close> with a string pattern: the first occurrence only.\<close>

fun replace :: "string \<Rightarrow> string \<Rightarrow> string \<Rightarrow> string" where
  "replace pat new [] = (if pat = [] then new else [])"
| "replace pat new (c # cs) =
     (if take (length pat) (c # cs) = pat then new @ drop (length pat) (c # cs)
      else c # replace pat new cs)"

definition newline :: string where
  "newline = [CHR 0x0A]"

section \<open>The rule and its recursion guard\<close>

definition stackItem :: "string \<Rightarrow> nat \<Rightarrow> string" where
  "stackItem nm start = nm @ '':'' @ show_nat start"

definition loopMessage :: "string list \<Rightarrow> string \<Rightarrow> string" where
  "loopMessage stack item =
     ''Loop detected:'' @ newline @ join newline (map (\<lambda>s. ''* '' @ s) stack)
       @ newline @ ''> '' @ item"

text \<open>
  \<^verbatim>\<open>ParserRule.parse\<close>. The parameter \<open>internal\<close> applies the rule's parse function.
\<close>

definition parse ::
  "('d parseFn \<Rightarrow> 'd Token list \<Rightarrow> nat \<Rightarrow> string list \<Rightarrow> ('d, 'd ParseResult option) comp)
    \<Rightarrow> 'd parse" where
  "parse internal r input start stack =
     (let item = stackItem (name r) start in
      if item \<in> set stack then throw (LoopDetected (loopMessage stack item))
      else internal (parseInternal r) input start (stack @ [item]))"

definition withName :: "string \<Rightarrow> 'd ParserRule \<Rightarrow> 'd ParserRule" where
  "withName nm r = ParserRule nm (parseInternal r)"

section \<open>Combinators: the rules they build\<close>

text \<open>
  The rule each combinator returns: its name, as the source composes it, and its parse
  function. An optional argument of the source (the separator, the maximum) is an
  \<open>option\<close>. \<^verbatim>\<open>rep\<close> is overloaded in the source and sorts its arguments by their run-time
  type before it calls \<^verbatim>\<open>repInternal\<close>; here the separator and the maximum have their
  own arguments. A combinator whose name is a constant of HOL has the suffix \<open>_rule\<close>.
\<close>

definition subNames :: "'d ParserRule \<Rightarrow> 'd ParserRule option \<Rightarrow> string" where
  "subNames rule sep = (case sep of Some s \<Rightarrow> name rule @ '', '' @ name s | None \<Rightarrow> name rule)"

definition repName :: "'d ParserRule \<Rightarrow> 'd ParserRule option \<Rightarrow> nat \<Rightarrow> nat option \<Rightarrow> string" where
  "repName rule sep mn mx =
     (case mx of
        None \<Rightarrow>
          if mn = 0 then ''star('' @ subNames rule sep @ '')''
          else if mn = 1 then ''plus('' @ subNames rule sep @ '')''
          else ''rep('' @ subNames rule sep @ '', '' @ show_nat mn @ '')''
      | Some m \<Rightarrow> ''rep('' @ subNames rule sep @ '', '' @ show_nat mn @ '', '' @ show_nat m @ '')'')"

definition repInternal ::
  "'d ParserRule \<Rightarrow> 'd ParserRule option \<Rightarrow> nat \<Rightarrow> nat option \<Rightarrow> 'd ParserRule" where
  "repInternal rule sep mn mx = ParserRule (repName rule sep mn mx) (RepFn rule sep mn mx)"

definition concatInternal :: "'d ParserRule list \<Rightarrow> 'd ParserRule" where
  "concatInternal rs = ParserRule (''concat('' @ join '', '' (map name rs) @ '')'') (ConcatFn rs)"

definition not_rule :: "'d ParserRule \<Rightarrow> 'd ParserRule" where
  "not_rule rule = ParserRule (''not('' @ name rule @ '')'') (NotFn rule)"

definition or_rule :: "'d ParserRule list \<Rightarrow> 'd ParserRule" where
  "or_rule options = ParserRule (''or('' @ join '', '' (map name options) @ '')'') (OrFn options)"

definition orLongest :: "'d ParserRule list \<Rightarrow> 'd ParserRule" where
  "orLongest options =
     ParserRule (''orLongest('' @ join '', '' (map name options) @ '')'') (OrLongestFn options)"

definition concat_rule :: "'d ParserRule list \<Rightarrow> 'd ParserRule" where
  "concat_rule rs = concatInternal rs"

definition first_rule :: "'d ParserRule \<Rightarrow> 'd ParserRule \<Rightarrow> 'd ParserRule list \<Rightarrow> 'd ParserRule" where
  "first_rule rule rule1 rest =
     (let cat = concatInternal (rule # rule1 # rest) in
      ParserRule (replace ''concat'' ''first'' (name cat)) (FirstFn cat))"

definition last_rule :: "'d ParserRule list \<Rightarrow> 'd ParserRule" where
  "last_rule rs =
     (let cat = concatInternal rs in
      ParserRule (replace ''concat'' ''last'' (name cat)) (LastFn cat))"

definition map_rule :: "'d ParserRule \<Rightarrow> ('d val \<Rightarrow> 'd val) \<Rightarrow> 'd ParserRule" where
  "map_rule rule f = ParserRule (''map('' @ name rule @ '', [function])'') (MapFn rule f)"

definition filter_rule :: "'d ParserRule \<Rightarrow> ('d val \<Rightarrow> bool) \<Rightarrow> 'd ParserRule" where
  "filter_rule rule f = ParserRule (''filter('' @ name rule @ '', [function])'') (FilterFn rule f)"

definition filterMap :: "'d ParserRule \<Rightarrow> ('d val \<Rightarrow> bool) \<Rightarrow> 'd ParserRule" where
  "filterMap rule f =
     ParserRule (''filterMap('' @ name rule @ '', [function])'') (FilterMapFn rule f)"

definition opt :: "'d ParserRule \<Rightarrow> 'd ParserRule" where
  "opt rule = ParserRule (''opt('' @ name rule @ '')'') (OptFn rule)"

definition star :: "'d ParserRule \<Rightarrow> 'd ParserRule option \<Rightarrow> 'd ParserRule" where
  "star rule sep = repInternal rule sep 0 None"

definition plus_rule :: "'d ParserRule \<Rightarrow> 'd ParserRule option \<Rightarrow> 'd ParserRule" where
  "plus_rule rule sep = repInternal rule sep 1 None"

definition rep :: "'d ParserRule \<Rightarrow> 'd ParserRule option \<Rightarrow> nat \<Rightarrow> nat option \<Rightarrow> 'd ParserRule" where
  "rep p1 sep mn mx = repInternal p1 sep mn mx"

definition token :: "key \<Rightarrow> 'd ParserRule" where
  "token k = ParserRule (''token('' @ k @ '')'') (TokenFn k)"

definition sub :: "key \<Rightarrow> 'd ParserRule" where
  "sub k = ParserRule (''sub('' @ k @ '')'') (SubFn k)"

section \<open>Combinators: the parse functions\<close>

text \<open>
  Each function below is the body of the closure of the same combinator. \<open>call\<close> is
  \<^verbatim>\<open>ParserRule.parse\<close>, as the closure calls it on a sub-rule.
\<close>

text \<open>
  The \<^verbatim>\<open>while (true)\<close> loop of \<^verbatim>\<open>repInternal\<close>, entered after a first element has
  matched. \<open>rep_sep\<close> is its block \<^verbatim>\<open>if (sep) { ... }\<close>: the position of the next element,
  or \<open>None\<close> for the \<^verbatim>\<open>break\<close>. The source has no bound on the iterations; the first
  argument of \<open>rep_while\<close> is a bound on them, and \<open>None\<close> means that the loop has not left
  within that bound.
\<close>

definition rep_sep ::
  "'d parse \<Rightarrow> 'd ParserRule option \<Rightarrow> 'd Token list \<Rightarrow> nat \<Rightarrow> string list
    \<Rightarrow> ('d, nat option) comp" where
  "rep_sep call sep input start stack =
     (case sep of
        None \<Rightarrow> ret (Some start)
      | Some s \<Rightarrow>
          andThen (call s input start stack)
            (\<lambda>sepResult. case sepResult of None \<Rightarrow> ret None | Some (_, e) \<Rightarrow> ret (Some e)))"

fun rep_while ::
  "nat \<Rightarrow> 'd parse \<Rightarrow> 'd ParserRule \<Rightarrow> 'd ParserRule option \<Rightarrow> 'd Token list \<Rightarrow> string list
    \<Rightarrow> 'd val list \<Rightarrow> nat \<Rightarrow> ('d, 'd val list \<times> nat) comp" where
  "rep_while 0 call rule sep input stack results end = None"
| "rep_while (Suc k) call rule sep input stack results end =
     andThen (rep_sep call sep input end stack)
       (\<lambda>next. case next of
          None \<Rightarrow> ret (results, end)
        | Some start \<Rightarrow>
            andThen (call rule input start stack)
              (\<lambda>result. case result of
                 None \<Rightarrow> ret (results, end)
               | Some (v, e) \<Rightarrow> rep_while k call rule sep input stack (results @ [v]) e))"

text \<open>The matching part of \<^verbatim>\<open>repInternal\<close>: the first attempt and the loop.\<close>

definition rep_collect ::
  "nat \<Rightarrow> 'd parse \<Rightarrow> 'd ParserRule \<Rightarrow> 'd ParserRule option \<Rightarrow> 'd Token list \<Rightarrow> nat
    \<Rightarrow> string list \<Rightarrow> ('d, 'd val list \<times> nat) comp" where
  "rep_collect k call rule sep input start stack =
     andThen (call rule input start stack)
       (\<lambda>firstResult. case firstResult of
          None \<Rightarrow> ret ([], start)
        | Some (v, e) \<Rightarrow> rep_while k call rule sep input stack [v] e)"

text \<open>The acceptance test of \<^verbatim>\<open>repInternal\<close> on the matched values.\<close>

definition rep_accept :: "nat \<Rightarrow> nat option \<Rightarrow> 'd val list \<times> nat \<Rightarrow> 'd ParseResult option" where
  "rep_accept mn mx m =
     (case m of (results, end) \<Rightarrow>
        if length results < mn \<or> (case mx of Some m \<Rightarrow> length results > m | None \<Rightarrow> False)
        then None
        else Some (Array results, end))"

definition rep_fn ::
  "nat \<Rightarrow> 'd parse \<Rightarrow> 'd ParserRule \<Rightarrow> 'd ParserRule option \<Rightarrow> nat \<Rightarrow> nat option
    \<Rightarrow> 'd Token list \<Rightarrow> nat \<Rightarrow> string list \<Rightarrow> ('d, 'd ParseResult option) comp" where
  "rep_fn k call rule sep mn mx input start stack =
     andThen (rep_collect k call rule sep input start stack) (\<lambda>m. ret (rep_accept mn mx m))"

text \<open>The \<^verbatim>\<open>for\<close> loop of \<^verbatim>\<open>concatInternal\<close>, with its variables \<^verbatim>\<open>results\<close> and \<^verbatim>\<open>end\<close>.\<close>

fun concat_for ::
  "'d parse \<Rightarrow> 'd ParserRule list \<Rightarrow> 'd Token list \<Rightarrow> string list \<Rightarrow> 'd val list \<Rightarrow> nat
    \<Rightarrow> ('d, 'd ParseResult option) comp" where
  "concat_for call [] input stack results end = ret (Some (Array results, end))"
| "concat_for call (rule # rest) input stack results end =
     andThen (call rule input end stack)
       (\<lambda>result. case result of
          None \<Rightarrow> ret None
        | Some (v, e) \<Rightarrow> concat_for call rest input stack (results @ [v]) e)"

definition concat_fn ::
  "'d parse \<Rightarrow> 'd ParserRule list \<Rightarrow> 'd Token list \<Rightarrow> nat \<Rightarrow> string list
    \<Rightarrow> ('d, 'd ParseResult option) comp" where
  "concat_fn call rs input start stack = concat_for call rs input stack [] start"

definition not_fn ::
  "'d parse \<Rightarrow> 'd ParserRule \<Rightarrow> 'd Token list \<Rightarrow> nat \<Rightarrow> string list
    \<Rightarrow> ('d, 'd ParseResult option) comp" where
  "not_fn call rule input start stack =
     andThen (call rule input start stack)
       (\<lambda>result. case result of Some _ \<Rightarrow> ret None | None \<Rightarrow> ret (Some (Undefined, start)))"

fun or_fn ::
  "'d parse \<Rightarrow> 'd ParserRule list \<Rightarrow> 'd Token list \<Rightarrow> nat \<Rightarrow> string list
    \<Rightarrow> ('d, 'd ParseResult option) comp" where
  "or_fn call [] input start stack = ret None"
| "or_fn call (option # rest) input start stack =
     andThen (call option input start stack)
       (\<lambda>result. case result of
          Some r \<Rightarrow> ret (Some r)
        | None \<Rightarrow> or_fn call rest input start stack)"

text \<open>The update of \<^verbatim>\<open>longest\<close> (and of \<^verbatim>\<open>best\<close> in \<^verbatim>\<open>Parser.parse\<close>) by one result.\<close>

definition keep_longer :: "('a \<times> nat) option \<Rightarrow> ('a \<times> nat) option \<Rightarrow> ('a \<times> nat) option" where
  "keep_longer longest result =
     (case result of
        None \<Rightarrow> longest
      | Some r \<Rightarrow> (case longest of
                    None \<Rightarrow> Some r
                  | Some l \<Rightarrow> if snd r > snd l then Some r else longest))"

fun orLongest_for ::
  "'d parse \<Rightarrow> 'd ParserRule list \<Rightarrow> 'd Token list \<Rightarrow> nat \<Rightarrow> string list
    \<Rightarrow> 'd ParseResult option \<Rightarrow> ('d, 'd ParseResult option) comp" where
  "orLongest_for call [] input start stack longest = ret longest"
| "orLongest_for call (option # rest) input start stack longest =
     andThen (call option input start stack)
       (\<lambda>result. orLongest_for call rest input start stack (keep_longer longest result))"

definition orLongest_fn ::
  "'d parse \<Rightarrow> 'd ParserRule list \<Rightarrow> 'd Token list \<Rightarrow> nat \<Rightarrow> string list
    \<Rightarrow> ('d, 'd ParseResult option) comp" where
  "orLongest_fn call options input start stack = orLongest_for call options input start stack None"

text \<open>\<^verbatim>\<open>value[0]\<close> and \<^verbatim>\<open>value[value.length - 1]\<close>: out of range they read \<^verbatim>\<open>undefined\<close>.\<close>

definition first_of :: "'d val \<Rightarrow> 'd val" where
  "first_of v = (case v of Array (x # _) \<Rightarrow> x | _ \<Rightarrow> Undefined)"

definition last_of :: "'d val \<Rightarrow> 'd val" where
  "last_of v = (case v of Array (x # xs) \<Rightarrow> last (x # xs) | _ \<Rightarrow> Undefined)"

definition first_fn ::
  "'d parse \<Rightarrow> 'd ParserRule \<Rightarrow> 'd Token list \<Rightarrow> nat \<Rightarrow> string list
    \<Rightarrow> ('d, 'd ParseResult option) comp" where
  "first_fn call cat input start stack =
     andThen (call cat input start stack)
       (\<lambda>result. case result of None \<Rightarrow> ret None | Some (v, e) \<Rightarrow> ret (Some (first_of v, e)))"

definition last_fn ::
  "'d parse \<Rightarrow> 'd ParserRule \<Rightarrow> 'd Token list \<Rightarrow> nat \<Rightarrow> string list
    \<Rightarrow> ('d, 'd ParseResult option) comp" where
  "last_fn call cat input start stack =
     andThen (call cat input start stack)
       (\<lambda>result. case result of None \<Rightarrow> ret None | Some (v, e) \<Rightarrow> ret (Some (last_of v, e)))"

definition map_fn ::
  "'d parse \<Rightarrow> 'd ParserRule \<Rightarrow> ('d val \<Rightarrow> 'd val) \<Rightarrow> 'd Token list \<Rightarrow> nat \<Rightarrow> string list
    \<Rightarrow> ('d, 'd ParseResult option) comp" where
  "map_fn call rule f input start stack =
     andThen (call rule input start stack)
       (\<lambda>result. case result of None \<Rightarrow> ret None | Some (v, e) \<Rightarrow> ret (Some (f v, e)))"

definition filter_fn ::
  "'d parse \<Rightarrow> 'd ParserRule \<Rightarrow> ('d val \<Rightarrow> bool) \<Rightarrow> 'd Token list \<Rightarrow> nat \<Rightarrow> string list
    \<Rightarrow> ('d, 'd ParseResult option) comp" where
  "filter_fn call rule f input start stack =
     andThen (call rule input start stack)
       (\<lambda>result. case result of
          None \<Rightarrow> ret None
        | Some (v, e) \<Rightarrow> if f v then ret (Some (v, e)) else ret None)"

definition filterMap_fn ::
  "'d parse \<Rightarrow> 'd ParserRule \<Rightarrow> ('d val \<Rightarrow> bool) \<Rightarrow> 'd Token list \<Rightarrow> nat \<Rightarrow> string list
    \<Rightarrow> ('d, 'd ParseResult option) comp" where
  "filterMap_fn call rule f input start stack =
     andThen (call rule input start stack)
       (\<lambda>result. case result of
          None \<Rightarrow> ret None
        | Some (v, e) \<Rightarrow> if f v then ret (Some (v, e)) else ret None)"

definition opt_fn ::
  "'d parse \<Rightarrow> 'd ParserRule \<Rightarrow> 'd Token list \<Rightarrow> nat \<Rightarrow> string list
    \<Rightarrow> ('d, 'd ParseResult option) comp" where
  "opt_fn call rule input start stack =
     andThen (call rule input start stack)
       (\<lambda>result. case result of
          None \<Rightarrow> ret (Some (OptResult False Undefined, start))
        | Some (v, e) \<Rightarrow> ret (Some (OptResult True v, e)))"

definition token_fn :: "key \<Rightarrow> 'd Token list \<Rightarrow> nat \<Rightarrow> ('d, 'd ParseResult option) comp" where
  "token_fn k input start =
     (if start \<ge> length input then ret None
      else let tok = input ! start in
        if key tok = k then ret (Some (Data (data tok), start + 1)) else ret None)"

definition sub_fn ::
  "'d parse \<Rightarrow> 'd Parser \<Rightarrow> key \<Rightarrow> 'd Token list \<Rightarrow> nat \<Rightarrow> string list
    \<Rightarrow> ('d, 'd ParseResult option) comp" where
  "sub_fn call p k input start stack =
     (case rules p k of None \<Rightarrow> throw TypeError | Some r \<Rightarrow> call r input start stack)"

text \<open>Applying a rule's parse function: the body of the closure the rule holds.\<close>

fun applyInternal ::
  "nat \<Rightarrow> 'd parse \<Rightarrow> 'd Parser \<Rightarrow> 'd parseFn \<Rightarrow> 'd Token list \<Rightarrow> nat \<Rightarrow> string list
    \<Rightarrow> ('d, 'd ParseResult option) comp" where
  "applyInternal n call p (RepFn rule sep mn mx) input start stack =
     rep_fn n call rule sep mn mx input start stack"
| "applyInternal n call p (ConcatFn rs) input start stack = concat_fn call rs input start stack"
| "applyInternal n call p (NotFn rule) input start stack = not_fn call rule input start stack"
| "applyInternal n call p (OrFn options) input start stack = or_fn call options input start stack"
| "applyInternal n call p (OrLongestFn options) input start stack =
     orLongest_fn call options input start stack"
| "applyInternal n call p (FirstFn cat) input start stack = first_fn call cat input start stack"
| "applyInternal n call p (LastFn cat) input start stack = last_fn call cat input start stack"
| "applyInternal n call p (MapFn rule f) input start stack = map_fn call rule f input start stack"
| "applyInternal n call p (FilterFn rule f) input start stack =
     filter_fn call rule f input start stack"
| "applyInternal n call p (FilterMapFn rule f) input start stack =
     filterMap_fn call rule f input start stack"
| "applyInternal n call p (OptFn rule) input start stack = opt_fn call rule input start stack"
| "applyInternal n call p (TokenFn k) input start stack = token_fn k input start"
| "applyInternal n call p (SubFn k) input start stack = sub_fn call p k input start stack"

text \<open>
  Rules call each other without bound (through \<^verbatim>\<open>sub\<close>), and the loop of \<^verbatim>\<open>repInternal\<close>
  has none either. \<open>run p n\<close> is \<^verbatim>\<open>ParserRule.parse\<close> in the parser \<open>p\<close>, cut at \<open>n\<close> nested
  calls and \<open>n\<close> iterations of each repetition: \<open>None\<close> means that the call has not returned
  within the bound.
\<close>

primrec run :: "'d Parser \<Rightarrow> nat \<Rightarrow> 'd parse" where
  "run p 0 = (\<lambda>r input start stack. None)"
| "run p (Suc n) = parse (applyInternal n (run p n) p)"

section \<open>The grammar driver\<close>

definition new_Parser :: "key list \<Rightarrow> (key \<rightharpoonup> 'd ParserRule) \<Rightarrow> 'd Parser" where
  "new_Parser rts getRules =
     \<lparr>roots = rts, rules = (\<lambda>k. map_option (withName k) (getRules k))\<rparr>"

fun roots_for ::
  "'d parse \<Rightarrow> 'd Parser \<Rightarrow> key list \<Rightarrow> 'd Token list \<Rightarrow> 'd ParseResult option
    \<Rightarrow> ('d, 'd ParseResult option) comp" where
  "roots_for call p [] input best = ret best"
| "roots_for call p (root # rest) input best =
     (case rules p root of
        None \<Rightarrow> throw TypeError
      | Some r \<Rightarrow>
          andThen (call r input 0 [])
            (\<lambda>result. roots_for call p rest input (keep_longer best result)))"

definition Parser_parse :: "'d parse \<Rightarrow> 'd Parser \<Rightarrow> 'd Token list \<Rightarrow> ('d, 'd val) comp" where
  "Parser_parse call p input =
     andThen (roots_for call p (roots p) input None)
       (\<lambda>best. case best of
          None \<Rightarrow> throw FailedToParse
        | Some (v, e) \<Rightarrow>
            if e < length input then throw (NotAllConsumed (input ! e)) else ret v)"

section \<open>Specification-level notions\<close>

text \<open>
  A call \<^emph>\<open>returns\<close> an outcome when some bound is large enough for it. By
  \<open>run_mono\<close> below a larger bound gives the same outcome, so the outcome of a call is
  unique (\<open>returns_unique\<close>) and a call that returns no outcome at any bound is a call
  that never comes back.
\<close>

definition approx :: "'d parse \<Rightarrow> 'd parse \<Rightarrow> bool" where
  "approx c c' = (\<forall>r input start stack out.
     c r input start stack = Some out \<longrightarrow> c' r input start stack = Some out)"

definition returns ::
  "'d Parser \<Rightarrow> 'd ParserRule \<Rightarrow> 'd Token list \<Rightarrow> nat \<Rightarrow> string list
    \<Rightarrow> 'd error + 'd ParseResult option \<Rightarrow> bool" where
  "returns p r input start stack out = (\<exists>n. run p n r input start stack = Some out)"

definition applies ::
  "'d Parser \<Rightarrow> 'd parseFn \<Rightarrow> 'd Token list \<Rightarrow> nat \<Rightarrow> string list
    \<Rightarrow> 'd error + 'd ParseResult option \<Rightarrow> bool" where
  "applies p fn input start stack out =
     (\<exists>n. applyInternal n (run p n) p fn input start stack = Some out)"

definition Parser_returns :: "'d Parser \<Rightarrow> 'd Token list \<Rightarrow> 'd error + 'd val \<Rightarrow> bool" where
  "Parser_returns p input out = (\<exists>n. Parser_parse (run p n) p input = Some out)"

text \<open>
  The results that are there in a list of attempts, and the first of them among those
  with the greatest end offset.
\<close>

definition successes :: "'a option list \<Rightarrow> 'a list" where
  "successes results = concat (map (\<lambda>result. case result of None \<Rightarrow> [] | Some r \<Rightarrow> [r]) results)"

definition first_longest :: "('a \<times> nat) option list \<Rightarrow> ('a \<times> nat) option" where
  "first_longest results =
     find (\<lambda>r. \<forall>r' \<in> set (successes results). snd r' \<le> snd r) (successes results)"

text \<open>
  Every rule of a list returns at the same position and path, with the results listed;
  and: some rule of the list throws \<open>e\<close>, every rule before it having returned.
\<close>

definition all_return ::
  "'d Parser \<Rightarrow> 'd Token list \<Rightarrow> nat \<Rightarrow> string list \<Rightarrow> 'd ParserRule list
    \<Rightarrow> 'd ParseResult option list \<Rightarrow> bool" where
  "all_return p input start stack options results =
     list_all2 (\<lambda>option result. returns p option input start stack (Inr result)) options results"

definition some_throws ::
  "'d Parser \<Rightarrow> 'd Token list \<Rightarrow> nat \<Rightarrow> string list \<Rightarrow> 'd ParserRule list \<Rightarrow> 'd error \<Rightarrow> bool" where
  "some_throws p input start stack options e =
     (\<exists>pre option post results. options = pre @ option # post
        \<and> all_return p input start stack pre results
        \<and> returns p option input start stack (Inl e))"

text \<open>A path of pairs of a rule name and a start offset, as the list of its markers.\<close>

definition markers :: "(string \<times> nat) list \<Rightarrow> string list" where
  "markers path = map (\<lambda>(nm, start). stackItem nm start) path"

text \<open>
  The rules a parse function calls: the rules its closure holds, and for \<^verbatim>\<open>sub\<close> the rule
  the registry holds under the name.
\<close>

fun callees :: "'d Parser \<Rightarrow> 'd parseFn \<Rightarrow> 'd ParserRule set" where
  "callees p (RepFn rule sep mn mx) = insert rule (set_option sep)"
| "callees p (ConcatFn rs) = set rs"
| "callees p (NotFn rule) = {rule}"
| "callees p (OrFn options) = set options"
| "callees p (OrLongestFn options) = set options"
| "callees p (FirstFn cat) = {cat}"
| "callees p (LastFn cat) = {cat}"
| "callees p (MapFn rule f) = {rule}"
| "callees p (FilterFn rule f) = {rule}"
| "callees p (FilterMapFn rule f) = {rule}"
| "callees p (OptFn rule) = {rule}"
| "callees p (TokenFn k) = {}"
| "callees p (SubFn k) = set_option (rules p k)"

text \<open>
  The errors a rule can throw: the loop error and the \<^verbatim>\<open>TypeError\<close>. \<open>throws_in U Q call\<close>:
  every error that \<open>call\<close> throws on a rule of \<open>U\<close> satisfies \<open>Q\<close>.
\<close>

fun rule_error :: "'d error \<Rightarrow> bool" where
  "rule_error (LoopDetected m) = True"
| "rule_error TypeError = True"
| "rule_error FailedToParse = False"
| "rule_error (NotAllConsumed tok) = False"

fun loop_error :: "'d error \<Rightarrow> bool" where
  "loop_error (LoopDetected m) = True"
| "loop_error TypeError = False"
| "loop_error FailedToParse = False"
| "loop_error (NotAllConsumed tok) = False"

definition throws_in :: "'d ParserRule set \<Rightarrow> ('d error \<Rightarrow> bool) \<Rightarrow> 'd parse \<Rightarrow> bool" where
  "throws_in U Q call = (\<forall>r \<in> U. \<forall>input start stack e.
     call r input start stack = Some (Inl e) \<longrightarrow> Q e)"

text \<open>
  A sequence of rules, in the spec's words: the first rule is attempted at the start
  offset and each following one at the end offset of the one before it; the sequence has
  no result as soon as a rule has none, and otherwise has the values of the rules in
  order, and the end offset of the last one.
\<close>

inductive sequence ::
  "'d Parser \<Rightarrow> 'd Token list \<Rightarrow> string list \<Rightarrow> 'd ParserRule list \<Rightarrow> nat
    \<Rightarrow> ('d val list \<times> nat) option \<Rightarrow> bool"
  for p :: "'d Parser" and input :: "'d Token list" and stack :: "string list" where
    seq_end: "sequence p input stack [] start (Some ([], start))"
  | seq_fail: "returns p rule input start stack (Inr None)
      \<Longrightarrow> sequence p input stack (rule # rest) start None"
  | seq_rest_fails: "returns p rule input start stack (Inr (Some (v, e)))
      \<Longrightarrow> sequence p input stack rest e None
      \<Longrightarrow> sequence p input stack (rule # rest) start None"
  | seq_next: "returns p rule input start stack (Inr (Some (v, e)))
      \<Longrightarrow> sequence p input stack rest e (Some (vs, end))
      \<Longrightarrow> sequence p input stack (rule # rest) start (Some (v # vs, end))"

text \<open>
  The repetition, in the spec's words. \<open>rep_next\<close>: the position of the next element after
  an element that ended at \<open>e\<close>, which is \<open>e\<close> without a separator and the end offset of
  the separator matched at \<open>e\<close> with one. \<open>rep_reaches\<close>: the values matched so far and
  the end offset of the last matched element. \<open>rep_stops\<close>: the separator has no result at
  \<open>e\<close>, or the element has none at the next position. \<open>rep_matched\<close>: the values
  matched when the repetition stops, and the end offset of the last matched element
  (the start offset when there is none).
\<close>

definition rep_next ::
  "'d Parser \<Rightarrow> 'd Token list \<Rightarrow> string list \<Rightarrow> 'd ParserRule option \<Rightarrow> nat \<Rightarrow> nat \<Rightarrow> bool" where
  "rep_next p input stack sep e s =
     (case sep of
        None \<Rightarrow> s = e
      | Some sp \<Rightarrow> (\<exists>sv. returns p sp input e stack (Inr (Some (sv, s)))))"

inductive rep_reaches ::
  "'d Parser \<Rightarrow> 'd Token list \<Rightarrow> string list \<Rightarrow> 'd ParserRule \<Rightarrow> 'd ParserRule option \<Rightarrow> nat
    \<Rightarrow> 'd val list \<Rightarrow> nat \<Rightarrow> bool"
  for p :: "'d Parser" and input :: "'d Token list" and stack :: "string list"
    and rule :: "'d ParserRule" and sep :: "'d ParserRule option" and start :: nat where
    reach_first: "returns p rule input start stack (Inr (Some (v, e)))
      \<Longrightarrow> rep_reaches p input stack rule sep start [v] e"
  | reach_next: "rep_reaches p input stack rule sep start vs e
      \<Longrightarrow> rep_next p input stack sep e s
      \<Longrightarrow> returns p rule input s stack (Inr (Some (v, e')))
      \<Longrightarrow> rep_reaches p input stack rule sep start (vs @ [v]) e'"

definition rep_stops ::
  "'d Parser \<Rightarrow> 'd Token list \<Rightarrow> string list \<Rightarrow> 'd ParserRule \<Rightarrow> 'd ParserRule option \<Rightarrow> nat
    \<Rightarrow> bool" where
  "rep_stops p input stack rule sep e =
     ((\<exists>sp. sep = Some sp \<and> returns p sp input e stack (Inr None))
      \<or> (\<exists>s. rep_next p input stack sep e s \<and> returns p rule input s stack (Inr None)))"

definition rep_matched ::
  "'d Parser \<Rightarrow> 'd Token list \<Rightarrow> string list \<Rightarrow> 'd ParserRule \<Rightarrow> 'd ParserRule option \<Rightarrow> nat
    \<Rightarrow> 'd val list \<Rightarrow> nat \<Rightarrow> bool" where
  "rep_matched p input stack rule sep start vs e =
     ((vs = [] \<and> e = start \<and> returns p rule input start stack (Inr None))
      \<or> (rep_reaches p input stack rule sep start vs e \<and> rep_stops p input stack rule sep e))"

text \<open>The loop of \<^verbatim>\<open>repInternal\<close> leaves with the values and the end offset \<open>out\<close>.\<close>

definition loops ::
  "'d Parser \<Rightarrow> 'd Token list \<Rightarrow> string list \<Rightarrow> 'd ParserRule \<Rightarrow> 'd ParserRule option
    \<Rightarrow> 'd val list \<Rightarrow> nat \<Rightarrow> 'd val list \<times> nat \<Rightarrow> bool" where
  "loops p input stack rule sep results e out =
     (\<exists>n. rep_while n (run p n) rule sep input stack results e = Some (Inr out))"

text \<open>
  A result is in bounds when its end offset is neither before the start offset nor past
  the end of the input; a parse function is bounded when every result it returns from a
  start offset within the input is in bounds.
\<close>

definition in_bounds :: "'d Token list \<Rightarrow> nat \<Rightarrow> 'd ParseResult option \<Rightarrow> bool" where
  "in_bounds input start result =
     (case result of None \<Rightarrow> True | Some (v, e) \<Rightarrow> start \<le> e \<and> e \<le> length input)"

definition bounded :: "'d Token list \<Rightarrow> 'd parse \<Rightarrow> bool" where
  "bounded input call = (\<forall>r start stack result.
     start \<le> length input \<longrightarrow> call r input start stack = Some (Inr result)
       \<longrightarrow> in_bounds input start result)"

text \<open>
  A grammar is closed in a finite set of rules \<open>U\<close> when the rules called by a rule of \<open>U\<close>
  are in \<open>U\<close>, every name a \<^verbatim>\<open>sub\<close> of \<open>U\<close> refers to is in the registry, and every root
  names a rule of \<open>U\<close>. It is progressing on an input when the element of every repetition
  of \<open>U\<close> ends after its start offset whenever it returns a result. \<open>halts\<close>: every call on a
  rule of \<open>U\<close> from an offset within the input, on the given path, has an outcome.
\<close>

definition closed_grammar :: "'d Parser \<Rightarrow> 'd ParserRule set \<Rightarrow> bool" where
  "closed_grammar p U =
     (finite U
      \<and> (\<forall>r \<in> U. callees p (parseInternal r) \<subseteq> U)
      \<and> (\<forall>r \<in> U. \<forall>k. parseInternal r = SubFn k \<longrightarrow> rules p k \<noteq> None)
      \<and> (\<forall>root \<in> set (roots p). \<exists>r \<in> U. rules p root = Some r))"

definition progressing :: "'d Parser \<Rightarrow> 'd Token list \<Rightarrow> 'd ParserRule set \<Rightarrow> bool" where
  "progressing p input U =
     (\<forall>r \<in> U. \<forall>rule sep mn mx. parseInternal r = RepFn rule sep mn mx \<longrightarrow>
        (\<forall>start stack v e. returns p rule input start stack (Inr (Some (v, e))) \<longrightarrow> start < e))"

definition halts :: "'d parse \<Rightarrow> 'd Token list \<Rightarrow> string list \<Rightarrow> 'd ParserRule set \<Rightarrow> bool" where
  "halts call input stack U =
     (\<forall>r \<in> U. \<forall>start \<le> length input. \<exists>out. call r input start stack = Some out)"

text \<open>
  Outcomes up to the loop error. \<open>is_loop\<close> holds of an outcome that is the loop error of
  the recursion guard. A computation \<open>m'\<close> agrees with \<open>m\<close> when, whenever \<open>m\<close> completes with
  an outcome that is not the loop error, \<open>m'\<close> completes with the same outcome or with the
  loop error. Two paths agree for \<open>call\<close> when every call on the second agrees with the
  same call on the first.
\<close>

definition is_loop :: "'d error + 'a \<Rightarrow> bool" where
  "is_loop out = (case out of Inl e \<Rightarrow> loop_error e | Inr x \<Rightarrow> False)"

definition agree :: "('d, 'a) comp \<Rightarrow> ('d, 'a) comp \<Rightarrow> bool" where
  "agree m m' = (\<forall>out. m = Some out \<longrightarrow> \<not> is_loop out \<longrightarrow>
     m' = Some out \<or> (\<exists>msg. m' = Some (Inl (LoopDetected msg))))"


section \<open>Example grammars\<close>

text \<open>A parser with an empty registry, for rules that do not use \<^verbatim>\<open>sub\<close>.\<close>

definition noRules :: "nat Parser" where
  "noRules = \<lparr>roots = [], rules = Map.empty\<rparr>"

text \<open>Three tokens of the kind \<^verbatim>\<open>x\<close>, and rules that match two and three of them.\<close>

definition xs3 :: "nat Token list" where
  "xs3 = [Token ''x'' 5, Token ''x'' 6, Token ''x'' 7]"

definition two_x :: "nat ParserRule" where
  "two_x = concat_rule [token ''x'', token ''x'']"

definition three_x :: "nat ParserRule" where
  "three_x = concat_rule [token ''x'', token ''x'', token ''x'']"

text \<open>
  The grammar with the single root \<^verbatim>\<open>number\<close>, one or more tokens of the kind \<^verbatim>\<open>digit\<close>; and
  its root rule as the registry holds it.
\<close>

definition digits :: "nat Parser" where
  "digits = new_Parser [''number''] [''number'' \<mapsto> rep (token ''digit'') None 1 None]"

definition number :: "nat ParserRule" where
  "number = withName ''number'' (rep (token ''digit'') None 1 None)"

definition x_then_y :: "nat ParserRule" where
  "x_then_y = concat_rule [token ''x'', token ''y'']"

text \<open>An element and a trailing separator.\<close>

definition a_sep :: "nat Token list" where
  "a_sep = [Token ''A'' 5, Token ''SEP'' 6]"

text \<open>
  A grammar whose root is a repetition of an element that matches without consuming
  input, and a grammar whose root refers to itself.
\<close>

definition nullable_star :: "nat Parser" where
  "nullable_star = new_Parser [''list''] [''list'' \<mapsto> star (opt (token ''a'')) None]"

definition self_reference :: "nat Parser" where
  "self_reference = new_Parser [''expr''] [''expr'' \<mapsto> sub ''expr'']"

section \<open>Bounds: a larger bound gives the same outcome\<close>

lemma andThen_Some_iff:
  "andThen m f = Some out \<longleftrightarrow>
     (\<exists>e. m = Some (Inl e) \<and> out = Inl e) \<or> (\<exists>x. m = Some (Inr x) \<and> f x = Some out)"
  by (auto simp: andThen_def split: option.splits sum.splits)

lemma andThen_ret [simp]: "andThen (ret x) f = f x"
  by (simp add: andThen_def ret_def)

lemma andThen_throw [simp]: "andThen (throw e) f = throw e"
  by (simp add: andThen_def throw_def)

lemma andThen_None [simp]: "andThen None f = None"
  by (simp add: andThen_def)

lemma andThen_Inl [simp]: "andThen (Some (Inl e)) f = Some (Inl e)"
  by (simp add: andThen_def)

lemma andThen_Inr [simp]: "andThen (Some (Inr x)) f = f x"
  by (simp add: andThen_def)

lemma approxD: "approx c c' \<Longrightarrow> c r input start stack = Some out \<Longrightarrow> c' r input start stack = Some out"
  by (simp add: approx_def)

lemma andThen_mono:
  assumes "andThen m f = Some out"
    and "\<And>x. m = Some x \<Longrightarrow> m' = Some x"
    and "\<And>x. m = Some (Inr x) \<Longrightarrow> f x = Some out \<Longrightarrow> f' x = Some out"
  shows "andThen m' f' = Some out"
  using assms by (auto simp: andThen_Some_iff)

lemma rep_sep_mono:
  "rep_sep c sep input e stack = Some out \<Longrightarrow> approx c c' \<Longrightarrow> rep_sep c' sep input e stack = Some out"
  unfolding rep_sep_def
  by (cases sep) (auto elim!: andThen_mono dest: approxD)

lemma rep_while_mono:
  "rep_while k c rule sep input stack results e = Some out \<Longrightarrow> k \<le> k' \<Longrightarrow> approx c c'
     \<Longrightarrow> rep_while k' c' rule sep input stack results e = Some out"
proof (induction k arbitrary: k' results e)
  case 0
  then show ?case by simp
next
  case (Suc k)
  from Suc.prems(2) obtain j where k': "k' = Suc j" and kj: "k \<le> j"
    by (cases k') auto
  from Suc.prems(1) show ?case
    unfolding k' rep_while.simps
  proof (rule andThen_mono)
    fix x assume "rep_sep c sep input e stack = Some x"
    then show "rep_sep c' sep input e stack = Some x"
      using Suc.prems(3) by (rule rep_sep_mono)
  next
    fix nxt
    assume *: "(case nxt of None \<Rightarrow> ret (results, e)
        | Some start \<Rightarrow> andThen (c rule input start stack)
            (\<lambda>result. case result of None \<Rightarrow> ret (results, e)
               | Some (v, e') \<Rightarrow> rep_while k c rule sep input stack (results @ [v]) e')) = Some out"
    show "(case nxt of None \<Rightarrow> ret (results, e)
        | Some start \<Rightarrow> andThen (c' rule input start stack)
            (\<lambda>result. case result of None \<Rightarrow> ret (results, e)
               | Some (v, e') \<Rightarrow> rep_while j c' rule sep input stack (results @ [v]) e')) = Some out"
    proof (cases nxt)
      case None
      with * show ?thesis by simp
    next
      case (Some start)
      with * show ?thesis
        by (auto elim!: andThen_mono dest: approxD [OF Suc.prems(3)]
              intro: Suc.IH [OF _ kj Suc.prems(3)] split: option.splits)
    qed
  qed
qed

lemma concat_for_mono:
  "concat_for c rs input stack results e = Some out \<Longrightarrow> approx c c'
     \<Longrightarrow> concat_for c' rs input stack results e = Some out"
proof (induction rs arbitrary: results e)
  case Nil
  then show ?case by simp
next
  case (Cons r rs)
  from Cons.prems(1) show ?case
    by (auto elim!: andThen_mono dest: approxD [OF Cons.prems(2)]
          intro: Cons.IH [OF _ Cons.prems(2)] split: option.splits)
qed

lemma or_fn_mono:
  "or_fn c rs input start stack = Some out \<Longrightarrow> approx c c'
     \<Longrightarrow> or_fn c' rs input start stack = Some out"
proof (induction rs)
  case Nil
  then show ?case by simp
next
  case (Cons r rs)
  from Cons.prems(1) show ?case
    by (auto elim!: andThen_mono dest: approxD [OF Cons.prems(2)]
          intro: Cons.IH [OF _ Cons.prems(2)] split: option.splits)
qed

lemma orLongest_for_mono:
  "orLongest_for c rs input start stack longest = Some out \<Longrightarrow> approx c c'
     \<Longrightarrow> orLongest_for c' rs input start stack longest = Some out"
proof (induction rs arbitrary: longest)
  case Nil
  then show ?case by simp
next
  case (Cons r rs)
  from Cons.prems(1) show ?case
    by (auto elim!: andThen_mono dest: approxD [OF Cons.prems(2)]
          intro: Cons.IH [OF _ Cons.prems(2)])
qed

lemma applyInternal_mono:
  assumes "applyInternal n c p fn input start stack = Some out" and "n \<le> n'" and "approx c c'"
  shows "applyInternal n' c' p fn input start stack = Some out"
proof (cases fn)
  case (RepFn rule sep mn mx)
  with assms show ?thesis
    by (auto simp: rep_fn_def rep_collect_def elim!: andThen_mono dest: approxD
          intro: rep_while_mono split: option.splits)
next
  case (ConcatFn rs)
  with assms show ?thesis by (auto simp: concat_fn_def intro: concat_for_mono)
next
  case (OrFn rs)
  with assms show ?thesis by (auto intro: or_fn_mono)
next
  case (OrLongestFn rs)
  with assms show ?thesis by (auto simp: orLongest_fn_def intro: orLongest_for_mono)
next
  case (SubFn k)
  with assms show ?thesis by (auto simp: sub_fn_def dest: approxD split: option.splits)
qed (use assms in \<open>auto simp: not_fn_def first_fn_def last_fn_def map_fn_def filter_fn_def
      filterMap_fn_def opt_fn_def elim!: andThen_mono dest: approxD\<close>)

lemma run_Suc:
  "run p (Suc n) r input start stack =
     (if stackItem (name r) start \<in> set stack
      then throw (LoopDetected (loopMessage stack (stackItem (name r) start)))
      else applyInternal n (run p n) p (parseInternal r) input start
             (stack @ [stackItem (name r) start]))"
  by (simp add: parse_def Let_def)

declare run.simps(2) [simp del]

lemma run_step_mono: "approx (run p n) (run p (Suc n))"
proof (induction n)
  case 0
  show ?case by (simp add: approx_def)
next
  case (Suc n)
  show ?case
    unfolding approx_def
  proof (intro allI impI)
    fix r input start stack out
    assume a: "run p (Suc n) r input start stack = Some out"
    show "run p (Suc (Suc n)) r input start stack = Some out"
    proof (cases "stackItem (name r) start \<in> set stack")
      case True
      with a show ?thesis by (simp add: run_Suc)
    next
      case False
      with a have "applyInternal n (run p n) p (parseInternal r) input start
          (stack @ [stackItem (name r) start]) = Some out"
        by (simp add: run_Suc)
      then have "applyInternal (Suc n) (run p (Suc n)) p (parseInternal r) input start
          (stack @ [stackItem (name r) start]) = Some out"
        by (rule applyInternal_mono) (simp_all add: Suc.IH)
      with False show ?thesis by (simp add: run_Suc [of p "Suc n"])
    qed
  qed
qed

lemma approx_refl: "approx c c"
  by (simp add: approx_def)

lemma approx_trans: "approx a b \<Longrightarrow> approx b c \<Longrightarrow> approx a c"
  by (simp add: approx_def)

lemma run_mono: "n \<le> m \<Longrightarrow> approx (run p n) (run p m)"
proof (induction m)
  case 0
  then show ?case by (simp add: approx_refl)
next
  case (Suc m)
  show ?case
  proof (cases "n = Suc m")
    case True
    then show ?thesis by (simp add: approx_refl)
  next
    case False
    with Suc.prems have "n \<le> m" by simp
    then show ?thesis using Suc.IH run_step_mono approx_trans by blast
  qed
qed

lemma returns_unique:
  assumes "returns p r input start stack out" and "returns p r input start stack out'"
  shows "out = out'"
proof -
  from assms obtain n m where n: "run p n r input start stack = Some out"
    and m: "run p m r input start stack = Some out'"
    by (auto simp: returns_def)
  have "run p (max n m) r input start stack = Some out"
    using approxD [OF run_mono n, of "max n m"] by simp
  moreover have "run p (max n m) r input start stack = Some out'"
    using approxD [OF run_mono m, of "max n m"] by simp
  ultimately show ?thesis by simp
qed

section \<open>The recursion guard and single calls\<close>

lemma run_0 [simp]: "run p 0 r input start stack = None"
  by simp

lemma returns_iff:
  "returns p r input start stack out \<longleftrightarrow>
     (if stackItem (name r) start \<in> set stack
      then out = Inl (LoopDetected (loopMessage stack (stackItem (name r) start)))
      else applies p (parseInternal r) input start (stack @ [stackItem (name r) start]) out)"
proof
  assume "returns p r input start stack out"
  then obtain n where n: "run p n r input start stack = Some out"
    by (auto simp: returns_def)
  then obtain m where "n = Suc m" by (cases n) auto
  with n show "if stackItem (name r) start \<in> set stack
      then out = Inl (LoopDetected (loopMessage stack (stackItem (name r) start)))
      else applies p (parseInternal r) input start (stack @ [stackItem (name r) start]) out"
    by (auto simp: run_Suc applies_def throw_def split: if_splits)
next
  assume a: "if stackItem (name r) start \<in> set stack
      then out = Inl (LoopDetected (loopMessage stack (stackItem (name r) start)))
      else applies p (parseInternal r) input start (stack @ [stackItem (name r) start]) out"
  show "returns p r input start stack out"
  proof (cases "stackItem (name r) start \<in> set stack")
    case True
    with a have "run p (Suc 0) r input start stack = Some out"
      by (simp add: run_Suc throw_def)
    then show ?thesis unfolding returns_def by blast
  next
    case False
    with a obtain n where "applyInternal n (run p n) p (parseInternal r) input start
        (stack @ [stackItem (name r) start]) = Some out"
      by (auto simp: applies_def)
    with False have "run p (Suc n) r input start stack = Some out"
      by (simp add: run_Suc)
    then show ?thesis unfolding returns_def by blast
  qed
qed

lemma ex_result:
  "(\<exists>x::('a \<times> 'b) option. Q x) \<longleftrightarrow> Q None \<or> (\<exists>v e. Q (Some (v, e)))"
  by (metis option.exhaust surj_pair)

lemma call_then_iff:
  "(\<exists>n. andThen (run p n r input start stack) f = Some out) \<longleftrightarrow>
     (\<exists>e. returns p r input start stack (Inl e) \<and> out = Inl e)
     \<or> (returns p r input start stack (Inr None) \<and> f None = Some out)
     \<or> (\<exists>v e. returns p r input start stack (Inr (Some (v, e))) \<and> f (Some (v, e)) = Some out)"
proof -
  have "(\<exists>n. andThen (run p n r input start stack) f = Some out) \<longleftrightarrow>
     (\<exists>e. returns p r input start stack (Inl e) \<and> out = Inl e)
     \<or> (\<exists>x. returns p r input start stack (Inr x) \<and> f x = Some out)"
    unfolding returns_def by (auto simp: andThen_Some_iff)
  then show ?thesis by (simp add: ex_result)
qed

lemma call_then_ex:
  assumes mono: "\<And>n m x. n \<le> m \<Longrightarrow> f n x = Some out \<Longrightarrow> f m x = Some out"
  shows "(\<exists>n. andThen (run p n r input start stack) (f n) = Some out) \<longleftrightarrow>
     (\<exists>e. returns p r input start stack (Inl e) \<and> out = Inl e)
     \<or> (\<exists>x. returns p r input start stack (Inr x) \<and> (\<exists>n. f n x = Some out))"
proof
  assume "\<exists>n. andThen (run p n r input start stack) (f n) = Some out"
  then show "(\<exists>e. returns p r input start stack (Inl e) \<and> out = Inl e)
     \<or> (\<exists>x. returns p r input start stack (Inr x) \<and> (\<exists>n. f n x = Some out))"
    unfolding returns_def by (auto simp: andThen_Some_iff)
next
  assume "(\<exists>e. returns p r input start stack (Inl e) \<and> out = Inl e)
     \<or> (\<exists>x. returns p r input start stack (Inr x) \<and> (\<exists>n. f n x = Some out))"
  then show "\<exists>n. andThen (run p n r input start stack) (f n) = Some out"
  proof (elim disjE exE conjE)
    fix e assume "returns p r input start stack (Inl e)" and "out = Inl e"
    then show ?thesis unfolding returns_def by (auto simp: andThen_Some_iff)
  next
    fix x n assume "returns p r input start stack (Inr x)" and f: "f n x = Some out"
    then obtain k where k: "run p k r input start stack = Some (Inr x)"
      by (auto simp: returns_def)
    have "run p (max k n) r input start stack = Some (Inr x)"
      using approxD [OF run_mono k, of "max k n"] by simp
    moreover have "f (max k n) x = Some out"
      using mono [OF _ f, of "max k n"] by simp
    ultimately have "andThen (run p (max k n) r input start stack) (f (max k n)) = Some out"
      by simp
    then show ?thesis by blast
  qed
qed

section \<open>Decimal rendering of offsets\<close>

lemma show_nat_digit: "n < 10 \<Longrightarrow> show_nat n = [digit n]"
  by (simp add: show_nat.simps)

lemma show_nat_0 [simp]: "show_nat 0 = ''0''"
  by (simp add: show_nat_digit digit_def)

lemma show_nat_1 [simp]: "show_nat (Suc 0) = ''1''"
  by (simp add: show_nat_digit digit_def)

lemma show_nat_2 [simp]: "show_nat 2 = ''2''"
  by (simp add: show_nat_digit digit_def)

lemma digit_inj: "a < 10 \<Longrightarrow> b < 10 \<Longrightarrow> digit a = digit b \<Longrightarrow> a = b"
proof -
  assume a: "a < 10" and b: "b < 10" and eq: "digit a = digit b"
  have d: "distinct ''0123456789''" by simp
  have l: "length ''0123456789'' = 10" by simp
  from eq show "a = b"
    unfolding digit_def using nth_eq_iff_index_eq [OF d, of a b] a b l by simp
qed

lemma digit_not_colon: "d < 10 \<Longrightarrow> digit d \<noteq> CHR '':''"
proof -
  assume "d < 10"
  then have "digit d \<in> set ''0123456789''"
    unfolding digit_def by (intro nth_mem) simp
  then show ?thesis by auto
qed

lemma show_nat_not_Nil: "show_nat n \<noteq> []"
  by (subst show_nat.simps) simp

lemma show_nat_no_colon: "CHR '':'' \<notin> set (show_nat n)"
proof (induction n rule: show_nat.induct)
  case (1 n)
  show ?case
  proof (cases "n < 10")
    case True
    then show ?thesis using digit_not_colon [of n] by (simp add: show_nat_digit)
  next
    case False
    then show ?thesis
      using "1.IH" digit_not_colon [of "n mod 10"]
      by (subst show_nat.simps) simp
  qed
qed

lemma show_nat_inj: "show_nat n = show_nat m \<Longrightarrow> n = m"
proof (induction n arbitrary: m rule: show_nat.induct)
  case (1 n)
  show ?case
  proof (cases "n < 10")
    case n: True
    show ?thesis
    proof (cases "m < 10")
      case True
      with n "1.prems" show ?thesis by (simp add: show_nat_digit digit_inj)
    next
      case False
      with n "1.prems" show ?thesis
        using show_nat_not_Nil [of "m div 10"]
        by (simp add: show_nat_digit show_nat.simps [of m])
    qed
  next
    case n: False
    show ?thesis
    proof (cases "m < 10")
      case True
      with n "1.prems" show ?thesis
        using show_nat_not_Nil [of "n div 10"]
        by (simp add: show_nat_digit show_nat.simps [of n])
    next
      case False
      with n "1.prems" have "show_nat (n div 10) = show_nat (m div 10)"
        and "digit (n mod 10) = digit (m mod 10)"
        by (simp_all add: show_nat.simps [of n] show_nat.simps [of m])
      then have "n div 10 = m div 10" and "n mod 10 = m mod 10"
        using "1.IH" [OF n] digit_inj [of "n mod 10" "m mod 10"] by simp_all
      then show ?thesis by (metis div_mult_mod_eq)
    qed
  qed
qed

lemma split_at_last:
  assumes "xs @ c # ys = xs' @ c # ys'" and "c \<notin> set ys" and "c \<notin> set ys'"
  shows "xs = xs' \<and> ys = ys'"
  using assms
  by (auto simp: append_eq_append_conv2 append_eq_Cons_conv Cons_eq_append_conv)

lemma stackItem_inj: "stackItem nm start = stackItem nm' start' \<longleftrightarrow> nm = nm' \<and> start = start'"
  unfolding stackItem_def
  using split_at_last [of nm "CHR '':''" "show_nat start" nm' "show_nat start'"]
    show_nat_no_colon show_nat_inj
  by auto

lemma stackItem_in_markers:
  "stackItem nm start \<in> set (markers path) \<longleftrightarrow> (nm, start) \<in> set path"
  unfolding markers_def by (auto simp: stackItem_inj)

lemma join_lines:
  "xs \<noteq> [] \<Longrightarrow> join newline (map f xs) @ newline = concat (map (\<lambda>x. f x @ newline) xs)"
  by (induction xs rule: induct_list012) simp_all

section \<open>The recursion guard of a rule\<close>

text \<open>
  Claim C2. For every rule, underlying parse function, input, start offset and path: if
  the marker of the rule's name and the start offset occurs in the path, \<^verbatim>\<open>parse\<close> throws
  the loop error, whose message lists every entry of the path in order, one per line, and
  then the offending marker; otherwise it calls the underlying parse function on the
  path extended by the marker. The path is a value: the extension is a new list, and
  the caller's list is what it was. A marker is the text \<^verbatim>\<open>name:start\<close>; the rendering is
  injective, so a marker occurs in a path of markers exactly when the pair of the name
  and the offset occurs in the path of pairs.
\<close>

theorem parse_recursion_guard:
  "parse internal r input start stack =
     (if stackItem (name r) start \<in> set stack
      then throw (LoopDetected (''Loop detected:'' @ newline
             @ concat (map (\<lambda>s. ''* '' @ s @ newline) stack)
             @ ''> '' @ stackItem (name r) start))
      else internal (parseInternal r) input start (stack @ [stackItem (name r) start]))
   \<and> (stackItem (name r) start \<in> set (markers path) \<longleftrightarrow> (name r, start) \<in> set path)
   \<and> markers path @ [stackItem (name r) start] = markers (path @ [(name r, start)])"
proof -
  have msg: "loopMessage stack item = ''Loop detected:'' @ newline
      @ concat (map (\<lambda>s. ''* '' @ s @ newline) stack) @ ''> '' @ item"
    if "item \<in> set stack" for item
  proof -
    from that have "stack \<noteq> []" by auto
    then show ?thesis
      using join_lines [of stack "\<lambda>s. ''* '' @ s"] by (simp add: loopMessage_def)
  qed
  have "parse internal r input start stack =
     (if stackItem (name r) start \<in> set stack
      then throw (LoopDetected (''Loop detected:'' @ newline
             @ concat (map (\<lambda>s. ''* '' @ s @ newline) stack)
             @ ''> '' @ stackItem (name r) start))
      else internal (parseInternal r) input start (stack @ [stackItem (name r) start]))"
    using msg [of "stackItem (name r) start"] by (simp add: parse_def Let_def)
  moreover have "stackItem (name r) start \<in> set (markers path) \<longleftrightarrow> (name r, start) \<in> set path"
    by (rule stackItem_in_markers)
  moreover have "markers path @ [stackItem (name r) start] = markers (path @ [(name r, start)])"
    by (simp add: markers_def)
  ultimately show ?thesis by blast
qed

theorem parse_recursion_guard_witness:
  "parse (applyInternal 0 (run noRules 0) noRules) (token ''a'') [Token ''a'' 5] 0 [''token(a):0'']
     = throw (LoopDetected (''Loop detected:'' @ newline @ ''* token(a):0'' @ newline
         @ ''> token(a):0''))
   \<and> parse (applyInternal 0 (run noRules 0) noRules) (token ''a'') [Token ''a'' 5] 0 [''x:0'']
     = ret (Some (Data 5, 1))"
  using parse_recursion_guard [of "applyInternal 0 (run noRules 0) noRules" "token ''a''"
      "[Token ''a'' 5]" 0 "[''token(a):0'']" "[]"]
    parse_recursion_guard [of "applyInternal 0 (run noRules 0) noRules" "token ''a''"
      "[Token ''a'' 5]" 0 "[''x:0'']" "[]"]
  by (simp add: token_def stackItem_def token_fn_def)

section \<open>Negative lookahead\<close>

lemma applies_NotFn:
  "applies p (NotFn R) input start stack out \<longleftrightarrow>
     (\<exists>e. returns p R input start stack (Inl e) \<and> out = Inl e)
     \<or> (returns p R input start stack (Inr None) \<and> out = Inr (Some (Undefined, start)))
     \<or> (\<exists>v e. returns p R input start stack (Inr (Some (v, e))) \<and> out = Inr None)"
  unfolding applies_def applyInternal.simps not_fn_def call_then_iff
  by (auto simp: ret_def)

text \<open>
  Claim C7. For every rule \<open>R\<close>, input and start offset, \<^verbatim>\<open>not(R)\<close> returns a result exactly
  when it passes its own recursion guard and \<open>R\<close> returns no result at that position; the
  result then has the end offset \<open>start\<close> and the value \<^verbatim>\<open>undefined\<close>. It returns no result
  exactly when \<open>R\<close> returns one. So the position never advances, and the value of \<open>R\<close> is
  never surfaced.
\<close>

theorem not_lookahead:
  "(returns p (not_rule R) input start stack (Inr (Some (v, e))) \<longleftrightarrow>
      stackItem (name (not_rule R)) start \<notin> set stack \<and> v = Undefined \<and> e = start \<and>
      returns p R input start (stack @ [stackItem (name (not_rule R)) start]) (Inr None))
   \<and> (returns p (not_rule R) input start stack (Inr None) \<longleftrightarrow>
      stackItem (name (not_rule R)) start \<notin> set stack \<and>
      (\<exists>res. returns p R input start (stack @ [stackItem (name (not_rule R)) start])
         (Inr (Some res))))"
proof -
  have fn: "parseInternal (not_rule R) = NotFn R"
    by (simp add: not_rule_def)
  show ?thesis
    unfolding returns_iff [of p "not_rule R"] fn applies_NotFn
    by auto
qed

theorem not_lookahead_witness:
  "returns noRules (not_rule (token ''a'')) [Token ''b'' 7] 0 [] (Inr (Some (Undefined, 0)))
   \<and> returns noRules (not_rule (token ''b'')) [Token ''b'' 7] 0 [] (Inr None)"
proof -
  have "returns noRules (token ''a'') [Token ''b'' 7] 0 [''not(token(a)):0''] (Inr None)"
    unfolding returns_def
    by (rule exI [of _ 1]) (simp add: run_Suc token_def stackItem_def token_fn_def ret_def)
  moreover have "returns noRules (token ''b'') [Token ''b'' 7] 0 [''not(token(b)):0'']
      (Inr (Some (Data 7, 1)))"
    unfolding returns_def
    by (rule exI [of _ 1]) (simp add: run_Suc token_def stackItem_def token_fn_def ret_def)
  ultimately show ?thesis
    using not_lookahead [of noRules "token ''a''" "[Token ''b'' 7]" 0 "[]" Undefined 0]
      not_lookahead [of noRules "token ''b''" "[Token ''b'' 7]" 0 "[]"]
    by (auto simp: not_rule_def token_def stackItem_def)
qed

section \<open>The token rule\<close>

lemma applies_TokenFn:
  "applies p (TokenFn k) input start stack out \<longleftrightarrow> token_fn k input start = Some out"
  by (simp add: applies_def)

section \<open>Keeping the longest result\<close>

lemma successes_simps [simp]:
  "successes [] = []"
  "successes (None # xs) = successes xs"
  "successes (Some r # xs) = r # successes xs"
  "successes (xs @ ys) = successes xs @ successes ys"
  by (simp_all add: successes_def)

lemma set_successes: "r \<in> set (successes results) \<longleftrightarrow> Some r \<in> set results"
  by (induction results) (auto simp: successes_def split: option.splits)

lemma ex_longest:
  assumes "xs \<noteq> []"
  shows "\<exists>m \<in> set xs. \<forall>r' \<in> set xs. snd r' \<le> (snd m :: nat)"
proof -
  from assms have "snd ` set xs \<noteq> {}" and "finite (snd ` set xs)" by auto
  then have "Max (snd ` set xs) \<in> snd ` set xs" by (rule_tac Max_in)
  then obtain m where "m \<in> set xs" and "snd m = Max (snd ` set xs)" by auto
  then show ?thesis by (metis List.finite_set Max_ge finite_imageI imageI)
qed

lemma find_snoc:
  "find P (xs @ [x]) = (case find P xs of Some y \<Rightarrow> Some y | None \<Rightarrow> if P x then Some x else None)"
  by (induction xs) simp_all

lemma find_longest:
  assumes "xs \<noteq> []"
  shows "\<exists>m. find (\<lambda>r. \<forall>r' \<in> set xs. snd r' \<le> (snd r :: nat)) xs = Some m"
proof -
  obtain m where "m \<in> set xs" and "\<forall>r' \<in> set xs. snd r' \<le> snd m"
    using ex_longest [OF assms] by blast
  then have "find (\<lambda>r. \<forall>r' \<in> set xs. snd r' \<le> snd r) xs \<noteq> None"
    unfolding find_None_iff by blast
  then show ?thesis by blast
qed

lemma first_longest_snoc:
  "first_longest (results @ [result]) = keep_longer (first_longest results) result"
proof (cases result)
  case None
  then show ?thesis by (simp add: first_longest_def keep_longer_def)
next
  case (Some x)
  let ?succ = "successes results"
  let ?P = "\<lambda>r. \<forall>r' \<in> set ?succ. snd r' \<le> snd r"
  let ?P' = "\<lambda>r. \<forall>r' \<in> set (?succ @ [x]). snd r' \<le> snd r"
  show ?thesis
  proof (cases "?succ = []")
    case True
    with Some show ?thesis by (simp add: first_longest_def keep_longer_def)
  next
    case False
    from find_longest [OF False] obtain m where m: "find ?P ?succ = Some m"
      by blast
    then have Pm: "?P m" and m_in: "m \<in> set ?succ"
      by (auto simp: find_Some_iff)
    show ?thesis
    proof (cases "snd x > snd m")
      case True
      then have "\<And>y. y \<in> set ?succ \<Longrightarrow> \<not> ?P' y"
        using Pm by fastforce
      then have "find ?P' ?succ = None" unfolding find_None_iff by blast
      moreover have "?P' x" using True Pm by fastforce
      ultimately show ?thesis
        using Some m True by (simp add: first_longest_def keep_longer_def find_snoc)
    next
      case False
      have "\<And>y. y \<in> set ?succ \<Longrightarrow> ?P' y = ?P y"
        using False m_in by fastforce
      then have "find ?P' ?succ = find ?P ?succ"
        by (intro find_cong) auto
      then show ?thesis
        using Some m False by (simp add: first_longest_def keep_longer_def find_snoc)
    qed
  qed
qed

lemma first_longest_Nil [simp]: "first_longest [] = None"
  by (simp add: first_longest_def)

lemma foldl_keep_longer:
  "foldl keep_longer (first_longest xs) results = first_longest (xs @ results)"
proof (induction results arbitrary: xs)
  case Nil
  show ?case by simp
next
  case (Cons r rs)
  show ?case using Cons.IH [of "xs @ [r]"] by (simp add: first_longest_snoc)
qed

lemma foldl_keep_longer_None: "foldl keep_longer None results = first_longest results"
  using foldl_keep_longer [of "[]" results] by simp

lemma first_longest_None_iff: "first_longest results = None \<longleftrightarrow> (\<forall>result \<in> set results. result = None)"
proof
  assume a: "first_longest results = None"
  have "successes results = []"
  proof (rule ccontr)
    assume "successes results \<noteq> []"
    from find_longest [OF this] a show False
      by (simp add: first_longest_def)
  qed
  then show "\<forall>result \<in> set results. result = None"
    using set_successes [of _ results] by (metis empty_iff empty_set option.exhaust)
next
  assume "\<forall>result \<in> set results. result = None"
  then have "successes results = []"
    by (induction results) auto
  then show "first_longest results = None" by (simp add: first_longest_def)
qed

lemma all_return_Nil [simp]: "all_return p input start stack [] results \<longleftrightarrow> results = []"
  by (simp add: all_return_def)

lemma all_return_Cons:
  "all_return p input start stack (option # rest) results \<longleftrightarrow>
     (\<exists>result more. results = result # more \<and> returns p option input start stack (Inr result)
        \<and> all_return p input start stack rest more)"
  by (auto simp: all_return_def list_all2_Cons1)

lemma some_throws_Nil [simp]: "\<not> some_throws p input start stack [] e"
  by (simp add: some_throws_def)

lemma some_throws_Cons:
  "some_throws p input start stack (option # rest) e \<longleftrightarrow>
     returns p option input start stack (Inl e)
     \<or> (\<exists>result. returns p option input start stack (Inr result)
          \<and> some_throws p input start stack rest e)"
proof
  assume "some_throws p input start stack (option # rest) e"
  then obtain pre opt post results where split: "option # rest = pre @ opt # post"
    and pre: "all_return p input start stack pre results"
    and thrown: "returns p opt input start stack (Inl e)"
    unfolding some_throws_def by blast
  show "returns p option input start stack (Inl e)
     \<or> (\<exists>result. returns p option input start stack (Inr result)
          \<and> some_throws p input start stack rest e)"
  proof (cases pre)
    case Nil
    with split thrown show ?thesis by simp
  next
    case (Cons a pre')
    with split have "a = option" and rest: "rest = pre' @ opt # post" by simp_all
    with pre Cons obtain x more where "returns p option input start stack (Inr x)"
      and "all_return p input start stack pre' more"
      by (auto simp: all_return_Cons)
    with rest thrown show ?thesis unfolding some_throws_def by blast
  qed
next
  assume "returns p option input start stack (Inl e)
     \<or> (\<exists>result. returns p option input start stack (Inr result)
          \<and> some_throws p input start stack rest e)"
  then show "some_throws p input start stack (option # rest) e"
  proof (elim disjE exE conjE)
    assume "returns p option input start stack (Inl e)"
    then have "option # rest = [] @ option # rest \<and> all_return p input start stack [] []
        \<and> returns p option input start stack (Inl e)"
      by simp
    then show ?thesis unfolding some_throws_def by blast
  next
    fix result
    assume r: "returns p option input start stack (Inr result)"
      and "some_throws p input start stack rest e"
    then obtain pre opt post results where "rest = pre @ opt # post"
      and "all_return p input start stack pre results"
      and thrown: "returns p opt input start stack (Inl e)"
      unfolding some_throws_def by blast
    with r have "option # rest = (option # pre) @ opt # post
        \<and> all_return p input start stack (option # pre) (result # results)
        \<and> returns p opt input start stack (Inl e)"
      by (simp add: all_return_Cons)
    then show ?thesis unfolding some_throws_def by blast
  qed
qed

lemma all_return_all_None:
  "(\<exists>results. all_return p input start stack options results \<and> (\<forall>result \<in> set results. result = None))
     \<longleftrightarrow> (\<forall>option \<in> set options. returns p option input start stack (Inr None))"
proof (induction options)
  case Nil
  show ?case by simp
next
  case (Cons a options)
  show ?case
  proof
    assume "\<exists>results. all_return p input start stack (a # options) results
        \<and> (\<forall>result \<in> set results. result = None)"
    then obtain more where "returns p a input start stack (Inr None)"
      and "all_return p input start stack options more" and "\<forall>result \<in> set more. result = None"
      by (auto simp: all_return_Cons)
    with Cons.IH show "\<forall>option \<in> set (a # options). returns p option input start stack (Inr None)"
      by auto
  next
    assume a: "\<forall>option \<in> set (a # options). returns p option input start stack (Inr None)"
    with Cons.IH obtain more where "all_return p input start stack options more"
      and "\<forall>result \<in> set more. result = None"
      by auto
    with a have "all_return p input start stack (a # options) (None # more)
        \<and> (\<forall>result \<in> set (None # more). result = None)"
      by (simp add: all_return_Cons)
    then show "\<exists>results. all_return p input start stack (a # options) results
        \<and> (\<forall>result \<in> set results. result = None)"
      by blast
  qed
qed

section \<open>Evaluating the example rules\<close>

lemmas rule_defs = repInternal_def repName_def subNames_def concatInternal_def not_rule_def
  or_rule_def orLongest_def concat_rule_def first_rule_def last_rule_def map_rule_def
  filter_rule_def filterMap_def opt_def star_def plus_rule_def rep_def token_def sub_def

lemmas fn_defs = rep_fn_def rep_collect_def rep_accept_def rep_sep_def concat_fn_def not_fn_def
  orLongest_fn_def first_fn_def last_fn_def map_fn_def filter_fn_def filterMap_fn_def opt_fn_def
  token_fn_def sub_fn_def first_of_def last_of_def keep_longer_def ret_def throw_def

lemma example_names [simp]:
  "name two_x = ''concat(token(x), token(x))''"
  "name three_x = ''concat(token(x), token(x), token(x))''"
  "name (first_rule (token ''x'') (token ''x'') []) = ''first(token(x), token(x))''"
  by (simp_all add: two_x_def three_x_def rule_defs Let_def)

lemma returns_two_x:
  "nm \<noteq> ''concat(token(x), token(x))'' \<Longrightarrow> nm \<noteq> ''token(x)''
    \<Longrightarrow> returns noRules two_x xs3 0 [stackItem nm 0] (Inr (Some (Array [Data 5, Data 6], 2)))"
  unfolding returns_def
  by (rule exI [of _ "Suc (Suc 0)"])
    (simp add: run_Suc two_x_def xs3_def rule_defs fn_defs stackItem_inj)

lemma returns_three_x:
  "nm \<noteq> ''concat(token(x), token(x), token(x))'' \<Longrightarrow> nm \<noteq> ''token(x)''
    \<Longrightarrow> returns noRules three_x xs3 0 [stackItem nm 0]
          (Inr (Some (Array [Data 5, Data 6, Data 7], 3)))"
  unfolding returns_def
  by (rule exI [of _ "Suc (Suc 0)"])
    (simp add: run_Suc three_x_def xs3_def rule_defs fn_defs stackItem_inj)

lemma returns_first_x:
  "nm \<noteq> ''first(token(x), token(x))'' \<Longrightarrow> nm \<noteq> ''concat(token(x), token(x))''
    \<Longrightarrow> nm \<noteq> ''token(x)''
    \<Longrightarrow> returns noRules (first_rule (token ''x'') (token ''x'') []) xs3 0 [stackItem nm 0]
          (Inr (Some (Data 5, 2)))"
  unfolding returns_def
  by (rule exI [of _ "Suc (Suc (Suc 0))"])
    (simp add: run_Suc xs3_def rule_defs fn_defs stackItem_inj Let_def)

section \<open>Longest-match choice\<close>

lemma orLongest_for_returns:
  "(\<exists>n. orLongest_for (run p n) options input start stack longest = Some out) \<longleftrightarrow>
     (\<exists>results. all_return p input start stack options results
        \<and> out = Inr (foldl keep_longer longest results))
     \<or> (\<exists>e. some_throws p input start stack options e \<and> out = Inl e)"
proof (induction options arbitrary: longest)
  case Nil
  show ?case by (auto simp: ret_def)
next
  case (Cons opt rest)
  have mono: "\<And>n m x. n \<le> m
      \<Longrightarrow> orLongest_for (run p n) rest input start stack (keep_longer longest x) = Some out
      \<Longrightarrow> orLongest_for (run p m) rest input start stack (keep_longer longest x) = Some out"
    by (erule orLongest_for_mono [OF _ run_mono])
  have "(\<exists>n. orLongest_for (run p n) (opt # rest) input start stack longest = Some out) \<longleftrightarrow>
      (\<exists>e. returns p opt input start stack (Inl e) \<and> out = Inl e)
      \<or> (\<exists>x. returns p opt input start stack (Inr x)
           \<and> (\<exists>n. orLongest_for (run p n) rest input start stack (keep_longer longest x)
                 = Some out))"
    using call_then_ex [where f = "\<lambda>n result. orLongest_for (run p n) rest input start stack
        (keep_longer longest result)" and p = p and r = opt and out = out, OF mono]
    by simp
  then show ?case
    unfolding Cons.IH all_return_Cons some_throws_Cons
    by (elim ssubst) (rule iffI; elim disjE exE conjE; force)
qed

lemma applies_OrLongestFn:
  "applies p (OrLongestFn options) input start stack out \<longleftrightarrow>
     (\<exists>results. all_return p input start stack options results \<and> out = Inr (first_longest results))
     \<or> (\<exists>e. some_throws p input start stack options e \<and> out = Inl e)"
  unfolding applies_def applyInternal.simps orLongest_fn_def orLongest_for_returns
    foldl_keep_longer_None ..

text \<open>
  Claim C6. For every longest-match choice that passes its recursion guard, every input
  and start offset: the choice returns exactly when every option, attempted at the same
  start offset and on the same extended path, has returned (a result that is there does
  not end the iteration), and what it returns is the first of the results among those
  with the greatest end offset, so that on a tie the option listed earlier wins. It
  returns no result exactly when every option returns none. An error thrown by an option
  is thrown by the choice, whatever the options before it returned.
\<close>

theorem orLongest_keeps_first_longest:
  assumes "stackItem (name (orLongest options)) start \<notin> set stack"
    and "stack' = stack @ [stackItem (name (orLongest options)) start]"
  shows "(returns p (orLongest options) input start stack (Inr out) \<longleftrightarrow>
            (\<exists>results. all_return p input start stack' options results
               \<and> out = first_longest results))
     \<and> (returns p (orLongest options) input start stack (Inr None) \<longleftrightarrow>
            (\<forall>option \<in> set options. returns p option input start stack' (Inr None)))
     \<and> (returns p (orLongest options) input start stack (Inl e) \<longleftrightarrow>
            some_throws p input start stack' options e)"
proof -
  have fn: "parseInternal (orLongest options) = OrLongestFn options"
    by (simp add: orLongest_def)
  have r: "returns p (orLongest options) input start stack x \<longleftrightarrow>
      applies p (OrLongestFn options) input start stack' x" for x
    using assms by (simp add: returns_iff fn)
  have 1: "returns p (orLongest options) input start stack (Inr x) \<longleftrightarrow>
      (\<exists>results. all_return p input start stack' options results \<and> x = first_longest results)" for x
    unfolding r applies_OrLongestFn by auto
  have 2: "returns p (orLongest options) input start stack (Inr None) \<longleftrightarrow>
      (\<forall>option \<in> set options. returns p option input start stack' (Inr None))"
    unfolding 1 all_return_all_None [symmetric]
    by (metis first_longest_None_iff)
  have 3: "returns p (orLongest options) input start stack (Inl e) \<longleftrightarrow>
      some_throws p input start stack' options e"
    unfolding r applies_OrLongestFn by auto
  from 1 2 3 show ?thesis by blast
qed

theorem orLongest_keeps_first_longest_witness:
  "returns noRules (orLongest [two_x, three_x]) xs3 0 []
     (Inr (Some (Array [Data 5, Data 6, Data 7], 3)))
   \<and> returns noRules (orLongest [three_x, two_x]) xs3 0 []
     (Inr (Some (Array [Data 5, Data 6, Data 7], 3)))
   \<and> returns noRules (orLongest [two_x, first_rule (token ''x'') (token ''x'') []]) xs3 0 []
     (Inr (Some (Array [Data 5, Data 6], 2)))"
proof -
  let ?f = "first_rule (token ''x'') (token ''x'') [] :: nat ParserRule"
  have 1: "all_return noRules xs3 0 [stackItem (name (orLongest [two_x, three_x])) 0]
      [two_x, three_x] [Some (Array [Data 5, Data 6], 2), Some (Array [Data 5, Data 6, Data 7], 3)]"
    by (simp add: all_return_def returns_two_x returns_three_x orLongest_def)
  have 2: "all_return noRules xs3 0 [stackItem (name (orLongest [three_x, two_x])) 0]
      [three_x, two_x] [Some (Array [Data 5, Data 6, Data 7], 3), Some (Array [Data 5, Data 6], 2)]"
    by (simp add: all_return_def returns_two_x returns_three_x orLongest_def)
  have 3: "all_return noRules xs3 0 [stackItem (name (orLongest [two_x, ?f])) 0]
      [two_x, ?f] [Some (Array [Data 5, Data 6], 2), Some (Data 5, 2)]"
    by (simp add: all_return_def returns_two_x returns_first_x orLongest_def)
  have fl: "first_longest [Some (Array [Data (5::nat), Data 6], 2::nat), Some (Array [Data 5, Data 6, Data 7], 3)]
      = Some (Array [Data 5, Data 6, Data 7], 3)"
    "first_longest [Some (Array [Data (5::nat), Data 6, Data 7], 3::nat), Some (Array [Data 5, Data 6], 2)]
      = Some (Array [Data 5, Data 6, Data 7], 3)"
    "first_longest [Some (Array [Data (5::nat), Data 6], 2::nat), Some (Data 5, 2)]
      = Some (Array [Data 5, Data 6], 2)"
    by (simp_all add: first_longest_def)
  have g: "stackItem (name (orLongest opts)) 0 \<notin> set []" for opts :: "nat ParserRule list"
    by simp
  have "returns noRules (orLongest [two_x, three_x]) xs3 0 []
      (Inr (Some (Array [Data 5, Data 6, Data 7], 3)))"
    by (rule orLongest_keeps_first_longest [OF g refl, THEN conjunct1, THEN iffD2])
      (use 1 fl(1) in force)
  moreover have "returns noRules (orLongest [three_x, two_x]) xs3 0 []
      (Inr (Some (Array [Data 5, Data 6, Data 7], 3)))"
    by (rule orLongest_keeps_first_longest [OF g refl, THEN conjunct1, THEN iffD2])
      (use 2 fl(2) in force)
  moreover have "returns noRules (orLongest [two_x, ?f]) xs3 0 []
      (Inr (Some (Array [Data 5, Data 6], 2)))"
    by (rule orLongest_keeps_first_longest [OF g refl, THEN conjunct1, THEN iffD2])
      (use 3 fl(3) in force)
  ultimately show ?thesis by (intro conjI)
qed

section \<open>The errors of a rule\<close>

lemma andThen_throws:
  assumes "andThen m f = Some (Inl e)"
    and "m = Some (Inl e) \<Longrightarrow> P"
    and "\<And>x. m = Some (Inr x) \<Longrightarrow> f x = Some (Inl e) \<Longrightarrow> P"
  shows P
  using assms by (auto simp: andThen_Some_iff)

lemma throws_inD:
  "throws_in U Q call \<Longrightarrow> r \<in> U \<Longrightarrow> call r input start stack = Some (Inl e) \<Longrightarrow> Q e"
  by (auto simp: throws_in_def)

lemma rep_sep_throws_in:
  "rep_sep call sep input start stack = Some (Inl e) \<Longrightarrow> throws_in U Q call
     \<Longrightarrow> set_option sep \<subseteq> U \<Longrightarrow> Q e"
  unfolding rep_sep_def
  by (cases sep) (auto simp: ret_def elim!: andThen_throws dest: throws_inD split: option.splits)

lemma rep_while_throws_in:
  "rep_while k call rule sep input stack results e' = Some (Inl e) \<Longrightarrow> throws_in U Q call
     \<Longrightarrow> rule \<in> U \<Longrightarrow> set_option sep \<subseteq> U \<Longrightarrow> Q e"
proof (induction k arbitrary: results e')
  case 0
  then show ?case by simp
next
  case (Suc k)
  note to = Suc.prems(2) and ru = Suc.prems(3) and sp = Suc.prems(4)
  from Suc.prems(1) show ?case
    apply (simp only: rep_while.simps)
    apply (erule andThen_throws)
     apply (erule rep_sep_throws_in [OF _ to sp])
    apply (simp split: option.splits add: ret_def)
    apply (erule andThen_throws)
     apply (erule throws_inD [OF to ru])
    apply (clarsimp split: option.splits simp: ret_def)
    apply (erule Suc.IH [OF _ to ru sp])
    done
qed

lemma concat_for_throws_in:
  "concat_for call rs input stack results e' = Some (Inl e) \<Longrightarrow> throws_in U Q call
     \<Longrightarrow> set rs \<subseteq> U \<Longrightarrow> Q e"
proof (induction rs arbitrary: results e')
  case Nil
  then show ?case by (simp add: ret_def)
next
  case (Cons r rs)
  from Cons.prems(3) have r: "r \<in> U" and rs: "set rs \<subseteq> U" by simp_all
  from Cons.prems(1) show ?case
    apply (simp only: concat_for.simps)
    apply (erule andThen_throws)
     apply (erule throws_inD [OF Cons.prems(2) r])
    apply (clarsimp split: option.splits simp: ret_def)
    apply (erule Cons.IH [OF _ Cons.prems(2) rs])
    done
qed

lemma or_fn_throws_in:
  "or_fn call rs input start stack = Some (Inl e) \<Longrightarrow> throws_in U Q call
     \<Longrightarrow> set rs \<subseteq> U \<Longrightarrow> Q e"
proof (induction rs)
  case Nil
  then show ?case by (simp add: ret_def)
next
  case (Cons r rs)
  from Cons.prems(3) have r: "r \<in> U" and rs: "set rs \<subseteq> U" by simp_all
  from Cons.prems(1) show ?case
    apply (simp only: or_fn.simps)
    apply (erule andThen_throws)
     apply (erule throws_inD [OF Cons.prems(2) r])
    apply (clarsimp split: option.splits simp: ret_def)
    apply (erule Cons.IH [OF _ Cons.prems(2) rs])
    done
qed

lemma orLongest_for_throws_in:
  "orLongest_for call rs input start stack longest = Some (Inl e) \<Longrightarrow> throws_in U Q call
     \<Longrightarrow> set rs \<subseteq> U \<Longrightarrow> Q e"
proof (induction rs arbitrary: longest)
  case Nil
  then show ?case by (simp add: ret_def)
next
  case (Cons r rs)
  from Cons.prems(3) have r: "r \<in> U" and rs: "set rs \<subseteq> U" by simp_all
  from Cons.prems(1) show ?case
    apply (simp only: orLongest_for.simps)
    apply (erule andThen_throws)
     apply (erule throws_inD [OF Cons.prems(2) r])
    apply (erule Cons.IH [OF _ Cons.prems(2) rs])
    done
qed

lemma single_call_throws_in:
  assumes "andThen (call r input start stack) f = Some (Inl e)"
    and "throws_in U Q call" and "r \<in> U" and "\<And>x. f x \<noteq> Some (Inl e)"
  shows "Q e"
  using assms(1)
proof (rule andThen_throws)
  assume "call r input start stack = Some (Inl e)"
  with assms(2,3) show ?thesis by (rule throws_inD)
next
  fix x assume "f x = Some (Inl e)"
  with assms(4) show ?thesis by simp
qed

lemma applyInternal_throws_in:
  assumes "applyInternal n call p fn input start stack = Some (Inl e)"
    and "throws_in U Q call" and "callees p fn \<subseteq> U"
    and "\<And>k. fn = SubFn k \<Longrightarrow> rules p k = None \<Longrightarrow> Q TypeError"
  shows "Q e"
proof (cases fn)
  case (RepFn rule sep mn mx)
  with assms(3) have ru: "rule \<in> U" and sp: "set_option sep \<subseteq> U" by auto
  from assms(1) RepFn show ?thesis
    apply (simp add: rep_fn_def rep_collect_def)
    apply (erule andThen_throws)
     apply (erule andThen_throws)
      apply (erule throws_inD [OF assms(2) ru])
     apply (clarsimp split: option.splits simp: ret_def)
     apply (erule rep_while_throws_in [OF _ assms(2) ru sp])
    apply (simp add: ret_def)
    done
next
  case (ConcatFn rs)
  with assms(1,3) show ?thesis
    by (auto simp: concat_fn_def dest: concat_for_throws_in [OF _ assms(2)])
next
  case (OrFn rs)
  with assms(1,3) show ?thesis by (auto dest: or_fn_throws_in [OF _ assms(2)])
next
  case (OrLongestFn rs)
  with assms(1,3) show ?thesis
    by (auto simp: orLongest_fn_def dest: orLongest_for_throws_in [OF _ assms(2)])
next
  case (TokenFn k)
  with assms(1) show ?thesis by (auto simp: token_fn_def ret_def Let_def split: if_splits)
next
  case (SubFn k)
  show ?thesis
  proof (cases "rules p k")
    case None
    with assms(1,4) SubFn show ?thesis by (simp add: sub_fn_def throw_def)
  next
    case (Some r)
    with assms(1,3) SubFn show ?thesis
      by (auto simp: sub_fn_def dest: throws_inD [OF assms(2)])
  qed
next
  case (NotFn r)
  with assms(1,3) show ?thesis
    by (auto simp: not_fn_def ret_def split: option.splits
          elim!: single_call_throws_in [OF _ assms(2)])
next
  case (FirstFn r)
  with assms(1,3) show ?thesis
    by (auto simp: first_fn_def ret_def split: option.splits
          elim!: single_call_throws_in [OF _ assms(2)])
next
  case (LastFn r)
  with assms(1,3) show ?thesis
    by (auto simp: last_fn_def ret_def split: option.splits
          elim!: single_call_throws_in [OF _ assms(2)])
next
  case (MapFn r f)
  with assms(1,3) show ?thesis
    by (auto simp: map_fn_def ret_def split: option.splits
          elim!: single_call_throws_in [OF _ assms(2)])
next
  case (FilterFn r f)
  with assms(1,3) show ?thesis
    by (auto simp: filter_fn_def ret_def split: option.splits if_splits
          elim!: single_call_throws_in [OF _ assms(2)])
next
  case (FilterMapFn r f)
  with assms(1,3) show ?thesis
    by (auto simp: filterMap_fn_def ret_def split: option.splits if_splits
          elim!: single_call_throws_in [OF _ assms(2)])
next
  case (OptFn r)
  with assms(1,3) show ?thesis
    by (auto simp: opt_fn_def ret_def split: option.splits
          elim!: single_call_throws_in [OF _ assms(2)])
qed

lemma run_throws_in:
  assumes "\<And>r. r \<in> U \<Longrightarrow> callees p (parseInternal r) \<subseteq> U"
    and "\<And>r k. r \<in> U \<Longrightarrow> parseInternal r = SubFn k \<Longrightarrow> rules p k = None \<Longrightarrow> Q TypeError"
    and "\<And>m. Q (LoopDetected m)"
  shows "throws_in U Q (run p n)"
proof (induction n)
  case 0
  show ?case by (simp add: throws_in_def)
next
  case (Suc n)
  show ?case
    unfolding throws_in_def
  proof (intro ballI allI impI)
    fix r input start stack e
    assume r: "r \<in> U" and t: "run p (Suc n) r input start stack = Some (Inl e)"
    show "Q e"
    proof (cases "stackItem (name r) start \<in> set stack")
      case True
      with t assms(3) show ?thesis by (auto simp: run_Suc throw_def)
    next
      case False
      with t have "applyInternal n (run p n) p (parseInternal r) input start
          (stack @ [stackItem (name r) start]) = Some (Inl e)"
        by (simp add: run_Suc)
      then show ?thesis
        using Suc.IH assms(1) [OF r] assms(2) [OF r] by (rule applyInternal_throws_in)
    qed
  qed
qed

lemma returns_rule_error: "returns p r input start stack (Inl e) \<Longrightarrow> rule_error e"
proof -
  have "throws_in UNIV rule_error (run p n)" for n
    by (rule run_throws_in) simp_all
  then show "returns p r input start stack (Inl e) \<Longrightarrow> rule_error e"
    unfolding returns_def by (auto dest: throws_inD)
qed

lemma some_throws_rule_error: "some_throws p input start stack rs e \<Longrightarrow> rule_error e"
  unfolding some_throws_def by (auto dest: returns_rule_error)

section \<open>The top-level parse\<close>

lemma roots_for_registered:
  "list_all2 (\<lambda>root r. rules p root = Some r) rts rs
     \<Longrightarrow> roots_for call p rts input best = orLongest_for call rs input 0 [] best"
proof (induction rts arbitrary: rs best)
  case Nil
  then show ?case by simp
next
  case (Cons root rts)
  then obtain r rs' where "rs = r # rs'" and "rules p root = Some r"
    and "list_all2 (\<lambda>root r. rules p root = Some r) rts rs'"
    by (auto simp: list_all2_Cons1)
  with Cons.IH show ?case by simp
qed

lemma Parser_returns_iff:
  assumes "list_all2 (\<lambda>root r. rules p root = Some r) (roots p) rs"
  shows "Parser_returns p input out \<longleftrightarrow>
     (\<exists>e. some_throws p input 0 [] rs e \<and> out = Inl e)
     \<or> (\<exists>results. all_return p input 0 [] rs results \<and> first_longest results = None
          \<and> out = Inl FailedToParse)
     \<or> (\<exists>results v e. all_return p input 0 [] rs results \<and> first_longest results = Some (v, e)
          \<and> e < length input \<and> out = Inl (NotAllConsumed (input ! e)))
     \<or> (\<exists>results v e. all_return p input 0 [] rs results \<and> first_longest results = Some (v, e)
          \<and> length input \<le> e \<and> out = Inr v)"
proof -
  let ?F = "\<lambda>best. case best of
          None \<Rightarrow> throw FailedToParse
        | Some (v, e) \<Rightarrow>
            if e < length input then throw (NotAllConsumed (input ! e)) else ret v"
  have F: "?F best = Some out \<longleftrightarrow>
      (best = None \<and> out = Inl FailedToParse)
      \<or> (\<exists>v e. best = Some (v, e) \<and> e < length input \<and> out = Inl (NotAllConsumed (input ! e)))
      \<or> (\<exists>v e. best = Some (v, e) \<and> length input \<le> e \<and> out = Inr v)" for best
    by (cases best) (auto simp: throw_def ret_def split: if_splits)
  have "Parser_returns p input out \<longleftrightarrow>
      (\<exists>n. andThen (orLongest_for (run p n) rs input 0 [] None) ?F = Some out)"
    by (simp add: Parser_returns_def Parser_parse_def roots_for_registered [OF assms])
  also have "\<dots> \<longleftrightarrow>
      (\<exists>e. (\<exists>n. orLongest_for (run p n) rs input 0 [] None = Some (Inl e)) \<and> out = Inl e)
      \<or> (\<exists>best. (\<exists>n. orLongest_for (run p n) rs input 0 [] None = Some (Inr best))
           \<and> ?F best = Some out)"
    by (auto simp: andThen_Some_iff)
  also have "\<dots> \<longleftrightarrow>
      (\<exists>e. some_throws p input 0 [] rs e \<and> out = Inl e)
      \<or> (\<exists>results. all_return p input 0 [] rs results \<and> ?F (first_longest results) = Some out)"
    unfolding orLongest_for_returns foldl_keep_longer_None by auto
  also have "\<dots> \<longleftrightarrow>
     (\<exists>e. some_throws p input 0 [] rs e \<and> out = Inl e)
     \<or> (\<exists>results. all_return p input 0 [] rs results \<and> first_longest results = None
          \<and> out = Inl FailedToParse)
     \<or> (\<exists>results v e. all_return p input 0 [] rs results \<and> first_longest results = Some (v, e)
          \<and> e < length input \<and> out = Inl (NotAllConsumed (input ! e)))
     \<or> (\<exists>results v e. all_return p input 0 [] rs results \<and> first_longest results = Some (v, e)
          \<and> length input \<le> e \<and> out = Inr v)"
    unfolding F by blast
  finally show ?thesis .
qed

text \<open>
  Claim C3. For every parser whose roots name rules of its registry, and every input, the
  top-level parse attempts the roots in order at offset 0 on the empty path, and selects
  the first result among those with the greatest end offset. It throws the parse-failed
  error exactly when every root returns no result; it throws the trailing-input error,
  which carries the token at the selected end offset, exactly when the attempts return
  and the selected end offset is less than the length of the input; it returns the
  selected value exactly when the attempts return and the selected end offset is not
  less than the length of the input.
\<close>

theorem Parser_parse_selects_longest_root:
  assumes "list_all2 (\<lambda>root r. rules p root = Some r) (roots p) rs"
  shows "(Parser_returns p input (Inl FailedToParse) \<longleftrightarrow>
            (\<forall>r \<in> set rs. returns p r input 0 [] (Inr None)))
     \<and> (Parser_returns p input (Inl (NotAllConsumed tok)) \<longleftrightarrow>
            (\<exists>results v e. all_return p input 0 [] rs results
               \<and> first_longest results = Some (v, e) \<and> e < length input \<and> tok = input ! e))
     \<and> (Parser_returns p input (Inr v) \<longleftrightarrow>
            (\<exists>results e. all_return p input 0 [] rs results
               \<and> first_longest results = Some (v, e) \<and> length input \<le> e))"
proof -
  note iff = Parser_returns_iff [OF assms, of input]
  have no: "\<not> some_throws p input 0 [] rs FailedToParse"
    "\<not> some_throws p input 0 [] rs (NotAllConsumed tok)"
    using some_throws_rule_error [of p input 0 "[]" rs FailedToParse]
      some_throws_rule_error [of p input 0 "[]" rs "NotAllConsumed tok"]
    by auto
  have 1: "Parser_returns p input (Inl FailedToParse) \<longleftrightarrow>
      (\<forall>r \<in> set rs. returns p r input 0 [] (Inr None))"
  proof -
    have "Parser_returns p input (Inl FailedToParse) \<longleftrightarrow>
        (\<exists>results. all_return p input 0 [] rs results \<and> first_longest results = None)"
      unfolding iff using no by auto
    then show ?thesis
      unfolding first_longest_None_iff all_return_all_None .
  qed
  have 2: "Parser_returns p input (Inl (NotAllConsumed tok)) \<longleftrightarrow>
      (\<exists>results v e. all_return p input 0 [] rs results
         \<and> first_longest results = Some (v, e) \<and> e < length input \<and> tok = input ! e)"
    unfolding iff using no by auto
  have 3: "Parser_returns p input (Inr v) \<longleftrightarrow>
      (\<exists>results e. all_return p input 0 [] rs results
         \<and> first_longest results = Some (v, e) \<and> length input \<le> e)"
    unfolding iff by auto
  from 1 2 3 show ?thesis by (intro conjI)
qed

lemma digits_registered: "list_all2 (\<lambda>root r. rules digits root = Some r) (roots digits) [number]"
  by (simp add: digits_def new_Parser_def number_def)

lemma number_returns:
  "returns digits number [Token ''digit'' 5, Token ''digit'' 6, Token ''digit'' 7] 0 []
     (Inr (Some (Array [Data 5, Data 6, Data 7], 3)))"
  "returns digits number [Token ''digit'' 5, Token ''digit'' 6, Token ''letter'' 7] 0 []
     (Inr (Some (Array [Data 5, Data 6], 2)))"
  "returns digits number [] 0 [] (Inr None)"
  unfolding returns_def
  by (rule exI [of _ "Suc (Suc (Suc (Suc 0)))"];
      simp add: run_Suc number_def withName_def rule_defs fn_defs stackItem_inj)+

theorem Parser_parse_selects_longest_root_witness:
  "Parser_returns digits [Token ''digit'' 5, Token ''digit'' 6, Token ''digit'' 7]
     (Inr (Array [Data 5, Data 6, Data 7]))
   \<and> Parser_returns digits [Token ''digit'' 5, Token ''digit'' 6, Token ''letter'' 7]
     (Inl (NotAllConsumed (Token ''letter'' 7)))
   \<and> Parser_returns digits [] (Inl FailedToParse)"
proof -
  note t = Parser_parse_selects_longest_root [OF digits_registered]
  have "Parser_returns digits [Token ''digit'' 5, Token ''digit'' 6, Token ''digit'' 7]
     (Inr (Array [Data 5, Data 6, Data 7]))"
    by (rule t [THEN conjunct2, THEN conjunct2, THEN iffD2],
        rule exI [of _ "[Some (Array [Data 5, Data 6, Data 7], 3)]"])
      (simp add: all_return_def number_returns first_longest_def)
  moreover have "Parser_returns digits [Token ''digit'' 5, Token ''digit'' 6, Token ''letter'' 7]
     (Inl (NotAllConsumed (Token ''letter'' 7)))"
    by (rule t [THEN conjunct2, THEN conjunct1, THEN iffD2],
        rule exI [of _ "[Some (Array [Data 5, Data 6], 2)]"])
      (simp add: all_return_def number_returns first_longest_def)
  moreover have "Parser_returns digits [] (Inl FailedToParse)"
    by (rule t [THEN conjunct1, THEN iffD2]) (simp add: number_returns)
  ultimately show ?thesis by (intro conjI)
qed

section \<open>Sequences\<close>

inductive_simps sequence_Nil: "sequence p input stack [] start res"

inductive_simps sequence_Cons: "sequence p input stack (rule # rest) start res"

lemma concat_for_returns:
  "(\<exists>n. concat_for (run p n) rs input stack results e = Some (Inr out)) \<longleftrightarrow>
     (sequence p input stack rs e None \<and> out = None)
     \<or> (\<exists>vs end. sequence p input stack rs e (Some (vs, end))
          \<and> out = Some (Array (results @ vs), end))"
proof (induction rs arbitrary: results e)
  case Nil
  show ?case by (auto simp: ret_def sequence_Nil)
next
  case (Cons rule rest)
  let ?f = "\<lambda>n result. case result of
          None \<Rightarrow> ret None
        | Some (v, e') \<Rightarrow> concat_for (run p n) rest input stack (results @ [v]) e'"
  have mono: "\<And>n m x. n \<le> m \<Longrightarrow> ?f n x = Some (Inr out) \<Longrightarrow> ?f m x = Some (Inr out)"
    by (auto split: option.splits elim: concat_for_mono [OF _ run_mono])
  have "(\<exists>n. concat_for (run p n) (rule # rest) input stack results e = Some (Inr out)) \<longleftrightarrow>
      (\<exists>x. returns p rule input e stack (Inr x) \<and> (\<exists>n. ?f n x = Some (Inr out)))"
    using call_then_ex [where f = ?f and p = p and r = rule and out = "Inr out", OF mono]
    by simp
  also have "\<dots> \<longleftrightarrow> (returns p rule input e stack (Inr None) \<and> out = None)
      \<or> (\<exists>v e'. returns p rule input e stack (Inr (Some (v, e')))
           \<and> (\<exists>n. concat_for (run p n) rest input stack (results @ [v]) e' = Some (Inr out)))"
    unfolding ex_result by (simp add: ret_def) blast
  also have "\<dots> \<longleftrightarrow> (sequence p input stack (rule # rest) e None \<and> out = None)
     \<or> (\<exists>vs end. sequence p input stack (rule # rest) e (Some (vs, end))
          \<and> out = Some (Array (results @ vs), end))"
    unfolding Cons.IH sequence_Cons by (rule iffI; elim disjE exE conjE; force)
  finally show ?case .
qed

lemma applies_ConcatFn:
  "applies p (ConcatFn rs) input start stack (Inr out) \<longleftrightarrow>
     (sequence p input stack rs start None \<and> out = None)
     \<or> (\<exists>vs end. sequence p input stack rs start (Some (vs, end)) \<and> out = Some (Array vs, end))"
  unfolding applies_def applyInternal.simps concat_fn_def concat_for_returns by simp

text \<open>
  Claim C8. For every sequence \<^verbatim>\<open>concat(r1..rN)\<close> that passes its recursion guard, every input
  and start offset: the sequence returns no result exactly when, attempting rule 1 at the
  start offset and each following rule at the end offset of the one before it, a rule
  returns no result; it returns a result exactly when every rule returns one, and the
  result is then the list of the values in order with the end offset of the last rule.
  Each rule is attempted once, at one position: no other attempt is made after a failure.
\<close>

theorem concat_is_sequence:
  assumes "stackItem (name (concat_rule rs)) start \<notin> set stack"
    and "stack' = stack @ [stackItem (name (concat_rule rs)) start]"
  shows "(returns p (concat_rule rs) input start stack (Inr None) \<longleftrightarrow>
            sequence p input stack' rs start None)
     \<and> (returns p (concat_rule rs) input start stack (Inr (Some (v, end))) \<longleftrightarrow>
            (\<exists>vs. v = Array vs \<and> sequence p input stack' rs start (Some (vs, end))))"
proof -
  have fn: "parseInternal (concat_rule rs) = ConcatFn rs"
    by (simp add: concat_rule_def concatInternal_def)
  have "returns p (concat_rule rs) input start stack (Inr out) \<longleftrightarrow>
      applies p (ConcatFn rs) input start stack' (Inr out)" for out
    using assms by (simp add: returns_iff fn)
  then show ?thesis
    unfolding applies_ConcatFn by auto
qed

lemma returns_token_x:
  "nm \<noteq> ''token(x)'' \<Longrightarrow> returns noRules (token ''x'') xs3 0 [stackItem nm 0] (Inr (Some (Data 5, Suc 0)))"
  "nm \<noteq> ''token(x)'' \<Longrightarrow> returns noRules (token ''x'') xs3 (Suc 0) [stackItem nm 0] (Inr (Some (Data 6, 2)))"
  "nm \<noteq> ''token(y)'' \<Longrightarrow> returns noRules (token ''y'') xs3 (Suc 0) [stackItem nm 0] (Inr None)"
  unfolding returns_def
  by (rule exI [of _ "Suc 0"]; simp add: run_Suc xs3_def rule_defs fn_defs stackItem_inj)+

theorem concat_is_sequence_witness:
  "returns noRules two_x xs3 0 [] (Inr (Some (Array [Data 5, Data 6], 2)))
   \<and> returns noRules x_then_y xs3 0 [] (Inr None)"
proof -
  have g: "stackItem (name (concat_rule rs)) 0 \<notin> set []" for rs :: "nat ParserRule list"
    by simp
  have "sequence noRules xs3 [stackItem ''concat(token(x), token(x))'' 0]
      [token ''x'', token ''x''] 0 (Some ([Data 5, Data 6], 2))"
    by (rule seq_next [OF returns_token_x(1) seq_next [OF returns_token_x(2) seq_end]]) simp_all
  then have "returns noRules two_x xs3 0 [] (Inr (Some (Array [Data 5, Data 6], 2)))"
    unfolding two_x_def
    by (intro concat_is_sequence [OF g refl, THEN conjunct2, THEN iffD2])
      (simp add: rule_defs)
  moreover have "sequence noRules xs3 [stackItem ''concat(token(x), token(y))'' 0]
      [token ''x'', token ''y''] 0 None"
    by (rule seq_rest_fails [OF returns_token_x(1) seq_fail [OF returns_token_x(3)]]) simp_all
  then have "returns noRules x_then_y xs3 0 [] (Inr None)"
    unfolding x_then_y_def
    by (intro concat_is_sequence [OF g refl, THEN conjunct1, THEN iffD2])
      (simp add: rule_defs)
  ultimately show ?thesis by (intro conjI)
qed

section \<open>Repetition\<close>

lemma rep_sep_returns:
  "(\<exists>n. rep_sep (run p n) sep input e stack = Some (Inr nxt)) \<longleftrightarrow>
     (nxt = None \<and> (\<exists>sp. sep = Some sp \<and> returns p sp input e stack (Inr None)))
     \<or> (\<exists>s. nxt = Some s \<and> rep_next p input stack sep e s)"
proof (cases sep)
  case None
  then show ?thesis by (auto simp: rep_sep_def rep_next_def ret_def)
next
  case (Some sp)
  have "(\<exists>n. andThen (run p n sp input e stack)
          (\<lambda>sepResult. case sepResult of None \<Rightarrow> ret None | Some (_, e) \<Rightarrow> ret (Some e))
        = Some (Inr nxt)) \<longleftrightarrow>
      (returns p sp input e stack (Inr None) \<and> nxt = None)
      \<or> (\<exists>sv s. returns p sp input e stack (Inr (Some (sv, s))) \<and> nxt = Some s)"
    unfolding call_then_iff by (auto simp: ret_def)
  with Some show ?thesis
    by (simp add: rep_sep_def rep_next_def) blast
qed

lemma rep_while_fuel:
  "rep_while k (run p n) rule sep input stack results e = Some out
     \<Longrightarrow> loops p input stack rule sep results e x \<Longrightarrow> out = Inr x"
proof -
  assume a: "rep_while k (run p n) rule sep input stack results e = Some out"
    and "loops p input stack rule sep results e x"
  then obtain m where b: "rep_while m (run p m) rule sep input stack results e = Some (Inr x)"
    by (auto simp: loops_def)
  let ?N = "max (max k n) m"
  from a have "rep_while ?N (run p ?N) rule sep input stack results e = Some out"
    by (rule rep_while_mono) (simp_all add: run_mono)
  moreover from b have "rep_while ?N (run p ?N) rule sep input stack results e = Some (Inr x)"
    by (rule rep_while_mono) (simp_all add: run_mono)
  ultimately show ?thesis by simp
qed

lemma loopsI:
  "rep_while k (run p n) rule sep input stack results e = Some (Inr out)
     \<Longrightarrow> loops p input stack rule sep results e out"
proof -
  assume a: "rep_while k (run p n) rule sep input stack results e = Some (Inr out)"
  have "rep_while (max k n) (run p (max k n)) rule sep input stack results e = Some (Inr out)"
    using a by (rule rep_while_mono) (simp_all add: run_mono)
  then show ?thesis unfolding loops_def by blast
qed

lemma rep_while_Suc_cases:
  assumes "rep_while (Suc k) (run p n) rule sep input stack results e = Some (Inr out)"
  shows "(rep_stops p input stack rule sep e \<and> out = (results, e))
     \<or> (\<exists>s v e'. rep_next p input stack sep e s
          \<and> returns p rule input s stack (Inr (Some (v, e')))
          \<and> rep_while k (run p n) rule sep input stack (results @ [v]) e' = Some (Inr out))"
proof -
  from assms [unfolded rep_while.simps andThen_Some_iff]
  obtain nxt where sep: "rep_sep (run p n) sep input e stack = Some (Inr nxt)"
    and rest: "(case nxt of None \<Rightarrow> ret (results, e)
        | Some s \<Rightarrow> andThen (run p n rule input s stack)
            (\<lambda>result. case result of None \<Rightarrow> ret (results, e)
               | Some (v, e') \<Rightarrow> rep_while k (run p n) rule sep input stack (results @ [v]) e'))
        = Some (Inr out)"
    by auto
  from sep have sep': "(nxt = None \<and> (\<exists>sp. sep = Some sp \<and> returns p sp input e stack (Inr None)))
     \<or> (\<exists>s. nxt = Some s \<and> rep_next p input stack sep e s)"
    using rep_sep_returns [of p sep input e stack nxt] by blast
  show ?thesis
  proof (cases nxt)
    case None
    with rest sep' show ?thesis by (auto simp: ret_def rep_stops_def)
  next
    case (Some s)
    with sep' have nx: "rep_next p input stack sep e s" by simp
    from rest Some obtain result where r: "run p n rule input s stack = Some (Inr result)"
      and rest': "(case result of None \<Rightarrow> ret (results, e)
               | Some (v, e') \<Rightarrow> rep_while k (run p n) rule sep input stack (results @ [v]) e')
          = Some (Inr out)"
      by (auto simp: andThen_Some_iff)
    from r have rr: "returns p rule input s stack (Inr result)"
      unfolding returns_def by blast
    show ?thesis
    proof (cases result)
      case None
      with rest' rr nx show ?thesis by (auto simp: ret_def rep_stops_def)
    next
      case (Some ve)
      obtain v e' where ve: "ve = (v, e')" by (cases ve)
      with rest' Some have "rep_while k (run p n) rule sep input stack (results @ [v]) e'
          = Some (Inr out)"
        by simp
      with rr Some ve nx show ?thesis by blast
    qed
  qed
qed

lemma loops_step:
  "loops p input stack rule sep results e out \<longleftrightarrow>
     (rep_stops p input stack rule sep e \<and> out = (results, e))
     \<or> (\<exists>s v e'. rep_next p input stack sep e s
          \<and> returns p rule input s stack (Inr (Some (v, e')))
          \<and> loops p input stack rule sep (results @ [v]) e' out)"
proof
  assume "loops p input stack rule sep results e out"
  then obtain n where n: "rep_while n (run p n) rule sep input stack results e = Some (Inr out)"
    by (auto simp: loops_def)
  then obtain k where k: "n = Suc k" by (cases n) auto
  from rep_while_Suc_cases [OF n [unfolded k], folded k]
  show "(rep_stops p input stack rule sep e \<and> out = (results, e))
     \<or> (\<exists>s v e'. rep_next p input stack sep e s
          \<and> returns p rule input s stack (Inr (Some (v, e')))
          \<and> loops p input stack rule sep (results @ [v]) e' out)"
    by (blast intro: loopsI)
next
  assume "(rep_stops p input stack rule sep e \<and> out = (results, e))
     \<or> (\<exists>s v e'. rep_next p input stack sep e s
          \<and> returns p rule input s stack (Inr (Some (v, e')))
          \<and> loops p input stack rule sep (results @ [v]) e' out)"
  then show "loops p input stack rule sep results e out"
  proof (elim disjE exE conjE)
    assume stops: "rep_stops p input stack rule sep e" and out: "out = (results, e)"
    from stops show ?thesis
      unfolding rep_stops_def
    proof (elim disjE exE conjE)
      fix sp assume "sep = Some sp" and "returns p sp input e stack (Inr None)"
      then have "\<exists>n. rep_sep (run p n) sep input e stack = Some (Inr None)"
        using rep_sep_returns [of p sep input e stack None] by blast
      then obtain n where "rep_sep (run p n) sep input e stack = Some (Inr None)" ..
      then have "rep_while (Suc 0) (run p n) rule sep input stack results e = Some (Inr out)"
        by (simp add: out ret_def)
      then show ?thesis by (rule loopsI)
    next
      fix s assume "rep_next p input stack sep e s"
        and f: "returns p rule input s stack (Inr None)"
      then have "\<exists>n. rep_sep (run p n) sep input e stack = Some (Inr (Some s))"
        using rep_sep_returns [of p sep input e stack "Some s"] by blast
      then obtain n where n: "rep_sep (run p n) sep input e stack = Some (Inr (Some s))" ..
      from f obtain m where m: "run p m rule input s stack = Some (Inr None)"
        by (auto simp: returns_def)
      let ?N = "max n m"
      have "rep_sep (run p ?N) sep input e stack = Some (Inr (Some s))"
        using n by (rule rep_sep_mono) (simp add: run_mono)
      moreover have "run p ?N rule input s stack = Some (Inr None)"
        using approxD [OF run_mono m, of ?N] by simp
      ultimately have "rep_while (Suc 0) (run p ?N) rule sep input stack results e
          = Some (Inr out)"
        by (simp add: out ret_def)
      then show ?thesis by (rule loopsI)
    qed
  next
    fix s v e'
    assume "rep_next p input stack sep e s"
      and f: "returns p rule input s stack (Inr (Some (v, e')))"
      and l: "loops p input stack rule sep (results @ [v]) e' out"
    then have "\<exists>n. rep_sep (run p n) sep input e stack = Some (Inr (Some s))"
      using rep_sep_returns [of p sep input e stack "Some s"] by blast
    then obtain n where n: "rep_sep (run p n) sep input e stack = Some (Inr (Some s))" ..
    from f obtain m where m: "run p m rule input s stack = Some (Inr (Some (v, e')))"
      by (auto simp: returns_def)
    from l obtain k where k: "rep_while k (run p k) rule sep input stack (results @ [v]) e'
        = Some (Inr out)"
      by (auto simp: loops_def)
    let ?N = "max (max n m) k"
    have "rep_sep (run p ?N) sep input e stack = Some (Inr (Some s))"
      using n by (rule rep_sep_mono) (simp add: run_mono)
    moreover have "run p ?N rule input s stack = Some (Inr (Some (v, e')))"
      using approxD [OF run_mono m, of ?N] by simp
    moreover have "rep_while ?N (run p ?N) rule sep input stack (results @ [v]) e'
        = Some (Inr out)"
      using k by (rule rep_while_mono) (simp_all add: run_mono)
    ultimately have "rep_while (Suc ?N) (run p ?N) rule sep input stack results e
        = Some (Inr out)"
      by simp
    then show ?thesis by (rule loopsI)
  qed
qed

lemma rep_while_sound:
  "rep_while k (run p n) rule sep input stack results e = Some (Inr (vs, end))
     \<Longrightarrow> rep_reaches p input stack rule sep start results e
     \<Longrightarrow> rep_reaches p input stack rule sep start vs end \<and> rep_stops p input stack rule sep end"
proof (induction k arbitrary: results e)
  case 0
  then show ?case by simp
next
  case (Suc k)
  from rep_while_Suc_cases [OF Suc.prems(1)] show ?case
  proof (elim disjE exE conjE)
    assume "rep_stops p input stack rule sep e" and "(vs, end) = (results, e)"
    with Suc.prems(2) show ?thesis by simp
  next
    fix s v e'
    assume "rep_next p input stack sep e s"
      and "returns p rule input s stack (Inr (Some (v, e')))"
      and w: "rep_while k (run p n) rule sep input stack (results @ [v]) e' = Some (Inr (vs, end))"
    with Suc.prems(2) have "rep_reaches p input stack rule sep start (results @ [v]) e'"
      by (blast intro: reach_next)
    with w show ?thesis by (rule Suc.IH)
  qed
qed

lemma rep_reaches_first:
  "rep_reaches p input stack rule sep start vs e
     \<Longrightarrow> \<exists>v e1. returns p rule input start stack (Inr (Some (v, e1)))"
  by (induction rule: rep_reaches.induct) blast+

lemma rep_reaches_loops:
  assumes "rep_reaches p input stack rule sep start vs e"
    and "returns p rule input start stack (Inr (Some (v1, e1)))"
    and "loops p input stack rule sep vs e out"
  shows "loops p input stack rule sep [v1] e1 out"
  using assms
proof (induction rule: rep_reaches.induct)
  case (reach_first v e)
  from returns_unique [OF reach_first(1) reach_first(2)] reach_first(3) show ?case by simp
next
  case (reach_next vs e s v e')
  from reach_next(2,3,6) have "loops p input stack rule sep vs e out"
    using loops_step [of p input stack rule sep vs e out] by blast
  with reach_next(4,5) show ?case by blast
qed

lemma rep_collect_returns:
  "(\<exists>n. rep_collect n (run p n) rule sep input start stack = Some (Inr (vs, e))) \<longleftrightarrow>
     rep_matched p input stack rule sep start vs e"
proof -
  let ?f = "\<lambda>n firstResult. case firstResult of
          None \<Rightarrow> ret ([], start)
        | Some (v, e') \<Rightarrow> rep_while n (run p n) rule sep input stack [v] e'"
  have mono: "\<And>n m x. n \<le> m \<Longrightarrow> ?f n x = Some (Inr (vs, e)) \<Longrightarrow> ?f m x = Some (Inr (vs, e))"
    by (auto split: option.splits elim: rep_while_mono [OF _ _ run_mono])
  have "(\<exists>n. rep_collect n (run p n) rule sep input start stack = Some (Inr (vs, e))) \<longleftrightarrow>
      (\<exists>x. returns p rule input start stack (Inr x) \<and> (\<exists>n. ?f n x = Some (Inr (vs, e))))"
    unfolding rep_collect_def
    using call_then_ex [where f = ?f and p = p and r = rule and out = "Inr (vs, e)", OF mono]
    by simp
  also have "\<dots> \<longleftrightarrow> (returns p rule input start stack (Inr None) \<and> vs = [] \<and> e = start)
      \<or> (\<exists>v e'. returns p rule input start stack (Inr (Some (v, e')))
           \<and> loops p input stack rule sep [v] e' (vs, e))"
    unfolding ex_result loops_def by (simp add: ret_def) blast
  also have "\<dots> \<longleftrightarrow> rep_matched p input stack rule sep start vs e"
  proof -
    have "(\<exists>v e'. returns p rule input start stack (Inr (Some (v, e')))
           \<and> loops p input stack rule sep [v] e' (vs, e)) \<longleftrightarrow>
        (rep_reaches p input stack rule sep start vs e \<and> rep_stops p input stack rule sep e)"
    proof
      assume "\<exists>v e'. returns p rule input start stack (Inr (Some (v, e')))
           \<and> loops p input stack rule sep [v] e' (vs, e)"
      then obtain v e' n where f: "returns p rule input start stack (Inr (Some (v, e')))"
        and w: "rep_while n (run p n) rule sep input stack [v] e' = Some (Inr (vs, e))"
        by (auto simp: loops_def)
      from f have "rep_reaches p input stack rule sep start [v] e'"
        by (rule reach_first)
      with w show "rep_reaches p input stack rule sep start vs e \<and> rep_stops p input stack rule sep e"
        by (rule rep_while_sound)
    next
      assume a: "rep_reaches p input stack rule sep start vs e \<and> rep_stops p input stack rule sep e"
      then obtain v e1 where f: "returns p rule input start stack (Inr (Some (v, e1)))"
        using rep_reaches_first by blast
      from a have "loops p input stack rule sep vs e (vs, e)"
        using loops_step [of p input stack rule sep vs e "(vs, e)"] by blast
      with a f have "loops p input stack rule sep [v] e1 (vs, e)"
        by (blast intro: rep_reaches_loops)
      with f show "\<exists>v e'. returns p rule input start stack (Inr (Some (v, e')))
           \<and> loops p input stack rule sep [v] e' (vs, e)"
        by blast
    qed
    then show ?thesis unfolding rep_matched_def by blast
  qed
  finally show ?thesis .
qed

lemma applies_RepFn:
  "applies p (RepFn rule sep mn mx) input start stack (Inr out) \<longleftrightarrow>
     (\<exists>vs e. rep_matched p input stack rule sep start vs e \<and> out = rep_accept mn mx (vs, e))"
proof -
  have "applies p (RepFn rule sep mn mx) input start stack (Inr out) \<longleftrightarrow>
      (\<exists>vs e. (\<exists>n. rep_collect n (run p n) rule sep input start stack = Some (Inr (vs, e)))
         \<and> out = rep_accept mn mx (vs, e))"
    unfolding applies_def applyInternal.simps rep_fn_def
    by (auto simp: andThen_Some_iff ret_def)
  then show ?thesis unfolding rep_collect_returns .
qed

lemma rep_accept_eq:
  "rep_accept mn mx (vs, e) =
     (if length vs < mn \<or> (\<exists>m. mx = Some m \<and> m < length vs) then None else Some (Array vs, e))"
  by (cases mx) (simp_all add: rep_accept_def)

lemma returns_repInternal:
  assumes "stackItem (name (repInternal rule sep mn mx)) start \<notin> set stack"
  shows "returns p (repInternal rule sep mn mx) input start stack (Inr out) \<longleftrightarrow>
     (\<exists>vs e. rep_matched p input (stack @ [stackItem (name (repInternal rule sep mn mx)) start])
          rule sep start vs e
        \<and> out = rep_accept mn mx (vs, e))"
proof -
  have fn: "parseInternal (repInternal rule sep mn mx) = RepFn rule sep mn mx"
    by (simp add: repInternal_def)
  show ?thesis
    using assms by (simp add: returns_iff fn applies_RepFn)
qed

lemma returns_token_iff:
  "stackItem (name (token k)) start \<notin> set stack
     \<Longrightarrow> returns p (token k) input start stack out \<longleftrightarrow> token_fn k input start = Some out"
  by (simp add: returns_iff applies_TokenFn token_def)

lemma name_token [simp]: "name (token k) = ''token('' @ k @ '')''"
  by (simp add: token_def)

text \<open>
  Claim C4. For every repetition with a separator that passes its recursion guard: when
  the elements matched so far are \<open>vs\<close> and the last of them ended at \<open>e\<close>, the separator
  returns a result at \<open>e\<close>, and the element returns no result at the end offset of the
  separator, the repetition stops: it returns what the acceptance test gives for the
  values \<open>vs\<close> and the end offset \<open>e\<close>, the position before the separator. The separator
  is not counted as consumed.
\<close>

theorem rep_dangling_separator:
  assumes "stackItem (name (repInternal rule (Some sep) mn mx)) start \<notin> set stack"
    and "stack' = stack @ [stackItem (name (repInternal rule (Some sep) mn mx)) start]"
    and "rep_reaches p input stack' rule (Some sep) start vs e"
    and "returns p sep input e stack' (Inr (Some (sv, s)))"
    and "returns p rule input s stack' (Inr None)"
  shows "returns p (repInternal rule (Some sep) mn mx) input start stack
     (Inr (if length vs < mn \<or> (\<exists>m. mx = Some m \<and> m < length vs) then None
           else Some (Array vs, e)))"
proof -
  from assms(4) have "rep_next p input stack' (Some sep) e s"
    by (auto simp: rep_next_def)
  with assms(5) have "rep_stops p input stack' rule (Some sep) e"
    unfolding rep_stops_def by blast
  with assms(3) have "rep_matched p input stack' rule (Some sep) start vs e"
    by (simp add: rep_matched_def)
  then show ?thesis
    using returns_repInternal [OF assms(1), of p input] by (auto simp: assms(2) rep_accept_eq)
qed

theorem rep_dangling_separator_witness:
  "returns noRules (star (token ''A'') (Some (token ''SEP''))) a_sep 0 []
     (Inr (Some (Array [Data 5], 1)))"
proof -
  let ?stack = "[stackItem (name (repInternal (token ''A'' :: nat ParserRule)
      (Some (token ''SEP'')) 0 None)) 0]"
  have "returns noRules (token ''A'') a_sep 0 ?stack (Inr (Some (Data 5, 1)))"
    by (simp add: returns_token_iff stackItem_inj repInternal_def repName_def subNames_def
          token_fn_def a_sep_def ret_def)
  then have 1: "rep_reaches noRules a_sep ?stack (token ''A'') (Some (token ''SEP'')) 0 [Data 5] 1"
    by (rule reach_first)
  have 2: "returns noRules (token ''SEP'') a_sep 1 ?stack (Inr (Some (Data 6, 2)))"
    by (simp add: returns_token_iff stackItem_inj repInternal_def repName_def subNames_def
          token_fn_def a_sep_def ret_def)
  have 3: "returns noRules (token ''A'') a_sep 2 ?stack (Inr None)"
    by (simp add: returns_token_iff stackItem_inj repInternal_def repName_def subNames_def
          token_fn_def a_sep_def ret_def)
  have g: "stackItem (name (repInternal (token ''A'' :: nat ParserRule)
      (Some (token ''SEP'')) 0 None)) 0 \<notin> set []"
    by simp
  from rep_dangling_separator [OF g _ 1 2 3] show ?thesis
    by (simp add: star_def)
qed

text \<open>
  Claim C5. For every repetition that passes its recursion guard, every input and start
  offset: the repetition returns exactly when the greedy matching stops, with values
  \<open>vs\<close> and the end offset \<open>e\<close> of the last matched element; it then returns no result
  when the number of values is less than \<open>mn\<close>, or greater than \<open>mx\<close> when there is one, and
  otherwise returns all the values in order with the end offset \<open>e\<close>. So the length of a
  result is within the bounds, and a longer match is refused, never cut.
\<close>

theorem rep_accepts_within_bounds:
  assumes "stackItem (name (repInternal rule sep mn mx)) start \<notin> set stack"
    and "stack' = stack @ [stackItem (name (repInternal rule sep mn mx)) start]"
  shows "(returns p (repInternal rule sep mn mx) input start stack (Inr out) \<longleftrightarrow>
            (\<exists>vs e. rep_matched p input stack' rule sep start vs e
               \<and> out = (if length vs < mn \<or> (\<exists>m. mx = Some m \<and> m < length vs) then None
                        else Some (Array vs, e))))
     \<and> (returns p (repInternal rule sep mn mx) input start stack (Inr (Some (v, end))) \<longrightarrow>
            (\<exists>vs. v = Array vs \<and> mn \<le> length vs \<and> (\<forall>m. mx = Some m \<longrightarrow> length vs \<le> m)))"
proof -
  have 1: "returns p (repInternal rule sep mn mx) input start stack (Inr x) \<longleftrightarrow>
      (\<exists>vs e. rep_matched p input stack' rule sep start vs e
         \<and> x = (if length vs < mn \<or> (\<exists>m. mx = Some m \<and> m < length vs) then None
                  else Some (Array vs, e)))" for x
    using returns_repInternal [OF assms(1)] by (simp add: assms(2) rep_accept_eq)
  have 2: "returns p (repInternal rule sep mn mx) input start stack (Inr (Some (v, end))) \<longrightarrow>
      (\<exists>vs. v = Array vs \<and> mn \<le> length vs \<and> (\<forall>m. mx = Some m \<longrightarrow> length vs \<le> m))"
    unfolding 1 by (auto split: if_splits simp: not_less)
  from 1 2 show ?thesis by blast
qed

lemma xs3_matched:
  assumes "nm \<noteq> ''token(x)''"
  shows "rep_matched noRules xs3 [stackItem nm 0] (token ''x'') None 0 [Data 5, Data 6, Data 7] 3"
proof -
  let ?stack = "[stackItem nm 0]"
  have t: "returns noRules (token ''x'') xs3 0 ?stack (Inr (Some (Data 5, 1)))"
    "returns noRules (token ''x'') xs3 1 ?stack (Inr (Some (Data 6, 2)))"
    "returns noRules (token ''x'') xs3 2 ?stack (Inr (Some (Data 7, 3)))"
    "returns noRules (token ''x'') xs3 3 ?stack (Inr None)"
    using assms
    by (simp_all add: returns_token_iff stackItem_inj token_fn_def xs3_def ret_def)
  have n: "rep_next noRules xs3 ?stack None e e" for e
    by (simp add: rep_next_def)
  from reach_next [OF reach_next [OF reach_first [OF t(1)] n t(2)] n t(3)]
  have "rep_reaches noRules xs3 ?stack (token ''x'') None 0 [Data 5, Data 6, Data 7] 3"
    by simp
  moreover have "rep_stops noRules xs3 ?stack (token ''x'') None 3"
    unfolding rep_stops_def using n t(4) by blast
  ultimately show ?thesis by (simp add: rep_matched_def)
qed

theorem rep_accepts_within_bounds_witness:
  "returns noRules (repInternal (token ''x'') None 2 (Some 3)) xs3 0 []
     (Inr (Some (Array [Data 5, Data 6, Data 7], 3)))
   \<and> returns noRules (repInternal (token ''x'') None 2 (Some 2)) xs3 0 [] (Inr None)
   \<and> returns noRules (repInternal (token ''x'') None 4 None) xs3 0 [] (Inr None)"
proof -
  have g: "stackItem (name (repInternal (token ''x'') None mn mx)) 0 \<notin> set []" for mn mx
    by simp
  have nm: "name (repInternal (token ''x'') None mn mx) \<noteq> ''token(x)''" for mn mx
    by (cases mx) (simp_all add: repInternal_def repName_def subNames_def)
  note t = rep_accepts_within_bounds [OF g refl, THEN conjunct1, THEN iffD2]
  have "returns noRules (repInternal (token ''x'') None 2 (Some 3)) xs3 0 []
     (Inr (Some (Array [Data 5, Data 6, Data 7], 3)))"
    by (rule t) (use xs3_matched [OF nm] in force)
  moreover have "returns noRules (repInternal (token ''x'') None 2 (Some 2)) xs3 0 [] (Inr None)"
    by (rule t) (use xs3_matched [OF nm] in force)
  moreover have "returns noRules (repInternal (token ''x'') None 4 None) xs3 0 [] (Inr None)"
    by (rule t) (use xs3_matched [OF nm] in force)
  ultimately show ?thesis by (intro conjI)
qed

section \<open>End offsets\<close>

lemma boundedD:
  "bounded input call \<Longrightarrow> start \<le> length input \<Longrightarrow> call r input start stack = Some (Inr result)
     \<Longrightarrow> in_bounds input start result"
  by (auto simp: bounded_def)

lemma in_bounds_simps [simp]:
  "in_bounds input start None"
  "in_bounds input start (Some (v, e)) \<longleftrightarrow> start \<le> e \<and> e \<le> length input"
  by (simp_all add: in_bounds_def)

lemma rep_sep_bounded:
  assumes "rep_sep call sep input e stack = Some (Inr (Some s))"
    and "bounded input call" and "e \<le> length input"
  shows "e \<le> s \<and> s \<le> length input"
proof (cases sep)
  case None
  with assms show ?thesis by (simp add: rep_sep_def ret_def)
next
  case (Some sp)
  with assms(1) show ?thesis
    by (auto simp: rep_sep_def andThen_Some_iff ret_def split: option.splits
          dest!: boundedD [OF assms(2,3)])
qed

lemma rep_while_bounded:
  "rep_while k call rule sep input stack results e = Some (Inr (vs, end))
     \<Longrightarrow> bounded input call \<Longrightarrow> e \<le> length input
     \<Longrightarrow> e \<le> end \<and> end \<le> length input"
proof (induction k arbitrary: results e)
  case 0
  then show ?case by simp
next
  case (Suc k)
  from Suc.prems(1) obtain nxt where sep: "rep_sep call sep input e stack = Some (Inr nxt)"
    and rest: "(case nxt of None \<Rightarrow> ret (results, e)
        | Some s \<Rightarrow> andThen (call rule input s stack)
            (\<lambda>result. case result of None \<Rightarrow> ret (results, e)
               | Some (v, e') \<Rightarrow> rep_while k call rule sep input stack (results @ [v]) e'))
        = Some (Inr (vs, end))"
    by (auto simp: andThen_Some_iff)
  show ?case
  proof (cases nxt)
    case None
    with rest Suc.prems(3) show ?thesis by (simp add: ret_def)
  next
    case (Some s)
    with sep have s: "e \<le> s \<and> s \<le> length input"
      using rep_sep_bounded [OF _ Suc.prems(2,3)] by simp
    from rest Some obtain result where c: "call rule input s stack = Some (Inr result)"
      and rest': "(case result of None \<Rightarrow> ret (results, e)
               | Some (v, e') \<Rightarrow> rep_while k call rule sep input stack (results @ [v]) e')
          = Some (Inr (vs, end))"
      by (auto simp: andThen_Some_iff)
    show ?thesis
    proof (cases result)
      case None
      with rest' Suc.prems(3) show ?thesis by (simp add: ret_def)
    next
      case (Some ve)
      obtain v e' where ve: "ve = (v, e')" by (cases ve)
      from boundedD [OF Suc.prems(2) _ c] s Some ve have e': "s \<le> e' \<and> e' \<le> length input"
        by simp
      from rest' Some ve have "rep_while k call rule sep input stack (results @ [v]) e'
          = Some (Inr (vs, end))"
        by simp
      from Suc.IH [OF this Suc.prems(2)] e' s show ?thesis by simp
    qed
  qed
qed

lemma rep_fn_bounded:
  assumes "rep_fn k call rule sep mn mx input start stack = Some (Inr result)"
    and "bounded input call" and "start \<le> length input"
  shows "in_bounds input start result"
proof -
  from assms(1) obtain m where col: "rep_collect k call rule sep input start stack = Some (Inr m)"
    and res: "result = rep_accept mn mx m"
    by (auto simp: rep_fn_def ret_def andThen_Some_iff)
  obtain vs e where m: "m = (vs, e)" by (cases m)
  from col obtain firstResult where c: "call rule input start stack = Some (Inr firstResult)"
    and rest: "(case firstResult of None \<Rightarrow> ret ([], start)
        | Some (v, e') \<Rightarrow> rep_while k call rule sep input stack [v] e') = Some (Inr (vs, e))"
    unfolding rep_collect_def m by (auto simp: andThen_Some_iff)
  have "start \<le> e \<and> e \<le> length input"
  proof (cases firstResult)
    case None
    with rest assms(3) show ?thesis by (simp add: ret_def)
  next
    case (Some ve)
    obtain v e' where ve: "ve = (v, e')" by (cases ve)
    from boundedD [OF assms(2,3) c] Some ve have e': "start \<le> e' \<and> e' \<le> length input"
      by simp
    from rest Some ve have "rep_while k call rule sep input stack [v] e' = Some (Inr (vs, e))"
      by simp
    from rep_while_bounded [OF this assms(2)] e' show ?thesis by simp
  qed
  then show ?thesis by (simp add: res m rep_accept_def)
qed

lemma concat_for_bounded:
  "concat_for call rs input stack results e = Some (Inr result)
     \<Longrightarrow> bounded input call \<Longrightarrow> e \<le> length input \<Longrightarrow> in_bounds input e result"
proof (induction rs arbitrary: results e)
  case Nil
  then show ?case by (auto simp: ret_def)
next
  case (Cons r rs)
  from Cons.prems(1) obtain x where c: "call r input e stack = Some (Inr x)"
    and rest: "(case x of None \<Rightarrow> ret None
        | Some (v, e') \<Rightarrow> concat_for call rs input stack (results @ [v]) e') = Some (Inr result)"
    by (auto simp: andThen_Some_iff)
  show ?case
  proof (cases x)
    case None
    with rest show ?thesis by (auto simp: ret_def)
  next
    case (Some ve)
    obtain v e' where ve: "ve = (v, e')" by (cases ve)
    from boundedD [OF Cons.prems(2,3) c] Some ve have e': "e \<le> e' \<and> e' \<le> length input"
      by simp
    from rest Some ve have "concat_for call rs input stack (results @ [v]) e' = Some (Inr result)"
      by simp
    from Cons.IH [OF this Cons.prems(2)] e' show ?thesis
      by (cases result) auto
  qed
qed

lemma or_fn_bounded:
  "or_fn call rs input start stack = Some (Inr result)
     \<Longrightarrow> bounded input call \<Longrightarrow> start \<le> length input \<Longrightarrow> in_bounds input start result"
proof (induction rs)
  case Nil
  then show ?case by (auto simp: ret_def)
next
  case (Cons r rs)
  from Cons.prems(1) obtain x where c: "call r input start stack = Some (Inr x)"
    and rest: "(case x of Some r' \<Rightarrow> ret (Some r') | None \<Rightarrow> or_fn call rs input start stack)
        = Some (Inr result)"
    by (auto simp: andThen_Some_iff)
  from boundedD [OF Cons.prems(2,3) c] rest Cons.IH [OF _ Cons.prems(2,3)] show ?case
    by (cases x) (auto simp: ret_def)
qed

lemma keep_longer_bounded:
  "in_bounds input start longest \<Longrightarrow> in_bounds input start result
     \<Longrightarrow> in_bounds input start (keep_longer longest result)"
  by (auto simp: keep_longer_def split: option.splits)

lemma orLongest_for_bounded:
  "orLongest_for call rs input start stack longest = Some (Inr result)
     \<Longrightarrow> bounded input call \<Longrightarrow> start \<le> length input \<Longrightarrow> in_bounds input start longest
     \<Longrightarrow> in_bounds input start result"
proof (induction rs arbitrary: longest)
  case Nil
  then show ?case by (auto simp: ret_def)
next
  case (Cons r rs)
  from Cons.prems(1) obtain x where c: "call r input start stack = Some (Inr x)"
    and rest: "orLongest_for call rs input start stack (keep_longer longest x) = Some (Inr result)"
    by (auto simp: andThen_Some_iff)
  from boundedD [OF Cons.prems(2,3) c] Cons.prems(4)
  have "in_bounds input start (keep_longer longest x)"
    by (intro keep_longer_bounded)
  with rest Cons.prems(2,3) show ?case by (rule Cons.IH)
qed

lemma single_call_bounded:
  assumes "andThen (call r input start stack) f = Some (Inr result)"
    and "bounded input call" and "start \<le> length input"
    and "\<And>x y. in_bounds input start x \<Longrightarrow> f x = Some (Inr y) \<Longrightarrow> in_bounds input start y"
  shows "in_bounds input start result"
proof -
  from assms(1) obtain x where c: "call r input start stack = Some (Inr x)"
    and f: "f x = Some (Inr result)"
    by (auto simp: andThen_Some_iff)
  from boundedD [OF assms(2,3) c] f show ?thesis by (rule assms(4))
qed

lemma applyInternal_bounded:
  assumes "applyInternal n call p fn input start stack = Some (Inr result)"
    and "bounded input call" and "start \<le> length input"
  shows "in_bounds input start result"
proof (cases fn)
  case (RepFn rule sep mn mx)
  with assms show ?thesis by (auto intro: rep_fn_bounded)
next
  case (ConcatFn rs)
  with assms show ?thesis by (auto simp: concat_fn_def intro: concat_for_bounded)
next
  case (NotFn r)
  with assms(1) have "andThen (call r input start stack)
      (\<lambda>result. case result of Some _ \<Rightarrow> ret None | None \<Rightarrow> ret (Some (Undefined, start)))
      = Some (Inr result)"
    by (simp add: not_fn_def)
  then show ?thesis using assms(2,3)
    by (rule single_call_bounded) (use assms(3) in \<open>auto simp: ret_def split: option.splits\<close>)
next
  case (OrFn rs)
  with assms show ?thesis by (auto intro: or_fn_bounded)
next
  case (OrLongestFn rs)
  with assms show ?thesis by (auto simp: orLongest_fn_def intro: orLongest_for_bounded)
next
  case (FirstFn r)
  with assms(1) have "andThen (call r input start stack)
      (\<lambda>result. case result of None \<Rightarrow> ret None | Some (v, e) \<Rightarrow> ret (Some (first_of v, e)))
      = Some (Inr result)"
    by (simp add: first_fn_def)
  then show ?thesis using assms(2,3)
    by (rule single_call_bounded) (auto simp: ret_def split: option.splits)
next
  case (LastFn r)
  with assms(1) have "andThen (call r input start stack)
      (\<lambda>result. case result of None \<Rightarrow> ret None | Some (v, e) \<Rightarrow> ret (Some (last_of v, e)))
      = Some (Inr result)"
    by (simp add: last_fn_def)
  then show ?thesis using assms(2,3)
    by (rule single_call_bounded) (auto simp: ret_def split: option.splits)
next
  case (MapFn r f)
  with assms(1) have "andThen (call r input start stack)
      (\<lambda>result. case result of None \<Rightarrow> ret None | Some (v, e) \<Rightarrow> ret (Some (f v, e)))
      = Some (Inr result)"
    by (simp add: map_fn_def)
  then show ?thesis using assms(2,3)
    by (rule single_call_bounded) (auto simp: ret_def split: option.splits)
next
  case (FilterFn r f)
  with assms(1) have "andThen (call r input start stack)
      (\<lambda>result. case result of None \<Rightarrow> ret None
         | Some (v, e) \<Rightarrow> if f v then ret (Some (v, e)) else ret None)
      = Some (Inr result)"
    by (simp add: filter_fn_def)
  then show ?thesis using assms(2,3)
    by (rule single_call_bounded) (auto simp: ret_def split: option.splits if_splits)
next
  case (FilterMapFn r f)
  with assms(1) have "andThen (call r input start stack)
      (\<lambda>result. case result of None \<Rightarrow> ret None
         | Some (v, e) \<Rightarrow> if f v then ret (Some (v, e)) else ret None)
      = Some (Inr result)"
    by (simp add: filterMap_fn_def)
  then show ?thesis using assms(2,3)
    by (rule single_call_bounded) (auto simp: ret_def split: option.splits if_splits)
next
  case (OptFn r)
  with assms(1) have "andThen (call r input start stack)
      (\<lambda>result. case result of None \<Rightarrow> ret (Some (OptResult False Undefined, start))
         | Some (v, e) \<Rightarrow> ret (Some (OptResult True v, e)))
      = Some (Inr result)"
    by (simp add: opt_fn_def)
  then show ?thesis using assms(2,3)
    by (rule single_call_bounded) (use assms(3) in \<open>auto simp: ret_def split: option.splits\<close>)
next
  case (TokenFn k)
  with assms show ?thesis
    by (auto simp: token_fn_def ret_def Let_def split: if_splits)
next
  case (SubFn k)
  with assms show ?thesis
    by (auto simp: sub_fn_def throw_def dest: boundedD split: option.splits)
qed

lemma run_bounded: "bounded input (run p n)"
proof (induction n)
  case 0
  show ?case by (simp add: bounded_def)
next
  case (Suc n)
  show ?case
    unfolding bounded_def
  proof (intro allI impI)
    fix r start stack result
    assume s: "start \<le> length input" and "run p (Suc n) r input start stack = Some (Inr result)"
    then have "applyInternal n (run p n) p (parseInternal r) input start
        (stack @ [stackItem (name r) start]) = Some (Inr result)"
      by (auto simp: run_Suc throw_def split: if_splits)
    then show "in_bounds input start result"
      using Suc.IH s by (rule applyInternal_bounded)
  qed
qed

text \<open>
  Claim C10. The rules of the model are those the combinators build (token, concat, first,
  last, or, orLongest, not, map, filter, filterMap, opt, star, plus, rep, sub), under any
  name. For every such rule, every parser, input, path and start offset that is at most
  the length of the input (an offset is a natural number): whenever parse returns a
  result, its end offset is at least the start offset and at most the length of the input.
\<close>

theorem end_offset_in_bounds:
  assumes "start \<le> length input"
    and "returns p r input start stack (Inr (Some (v, e)))"
  shows "start \<le> e \<and> e \<le> length input"
proof -
  from assms(2) obtain n where "run p n r input start stack = Some (Inr (Some (v, e)))"
    by (auto simp: returns_def)
  from boundedD [OF run_bounded assms(1) this] show ?thesis by simp
qed

theorem end_offset_in_bounds_witness:
  "returns noRules three_x xs3 0 [] (Inr (Some (Array [Data 5, Data 6, Data 7], 3)))
   \<and> (0::nat) \<le> 3 \<and> 3 \<le> length xs3"
proof -
  have r: "returns noRules three_x xs3 0 [] (Inr (Some (Array [Data 5, Data 6, Data 7], 3)))"
    unfolding returns_def
    by (rule exI [of _ "Suc (Suc 0)"])
      (simp add: run_Suc three_x_def xs3_def rule_defs fn_defs stackItem_inj)
  have "0 \<le> length xs3" by simp
  from end_offset_in_bounds [OF this r] r show ?thesis by simp
qed

section \<open>Termination\<close>

text \<open>
  What the recursion guard gives. Every call of \<^verbatim>\<open>parse\<close> that passes the guard extends
  the path by a marker that is not in it, and the markers of a finite grammar on a given
  input are finitely many; so the calls nest finitely deep. A repetition whose element
  ends after its start offset iterates at most as often as there are tokens left. Hence
  every call on a rule of a closed, progressing grammar has an outcome.
\<close>

lemma haltsD:
  "halts call input stack U \<Longrightarrow> r \<in> U \<Longrightarrow> start \<le> length input
     \<Longrightarrow> \<exists>out. call r input start stack = Some out"
  by (auto simp: halts_def)

lemma andThen_total:
  assumes "\<exists>x. m = Some x" and "\<And>x. m = Some (Inr x) \<Longrightarrow> \<exists>y. f x = Some y"
  shows "\<exists>y. andThen m f = Some y"
proof -
  from assms(1) obtain x where x: "m = Some x" ..
  show ?thesis
  proof (cases x)
    case (Inl e)
    with x show ?thesis by simp
  next
    case (Inr a)
    with x assms(2) [of a] show ?thesis by simp
  qed
qed

lemma concat_for_total:
  assumes "halts call input stack U" and "bounded input call"
  shows "set rs \<subseteq> U \<Longrightarrow> e \<le> length input
     \<Longrightarrow> \<exists>out. concat_for call rs input stack results e = Some out"
proof (induction rs arbitrary: results e)
  case Nil
  show ?case by (simp add: ret_def)
next
  case (Cons r rs)
  show ?case
    unfolding concat_for.simps
  proof (rule andThen_total)
    show "\<exists>x. call r input e stack = Some x"
      using haltsD [OF assms(1)] Cons.prems by simp
  next
    fix x assume c: "call r input e stack = Some (Inr x)"
    show "\<exists>y. (case x of None \<Rightarrow> ret None
        | Some (v, e') \<Rightarrow> concat_for call rs input stack (results @ [v]) e') = Some y"
    proof (cases x)
      case None
      then show ?thesis by (simp add: ret_def)
    next
      case (Some ve)
      obtain v e' where ve: "ve = (v, e')" by (cases ve)
      from boundedD [OF assms(2) Cons.prems(2) c] Some ve have "e' \<le> length input" by simp
      with Cons.IH [of e' "results @ [v]"] Cons.prems(1) Some ve show ?thesis by simp
    qed
  qed
qed

lemma or_fn_total:
  assumes "halts call input stack U" and "start \<le> length input"
  shows "set rs \<subseteq> U \<Longrightarrow> \<exists>out. or_fn call rs input start stack = Some out"
proof (induction rs)
  case Nil
  show ?case by (simp add: ret_def)
next
  case (Cons r rs)
  show ?case
    unfolding or_fn.simps
  proof (rule andThen_total)
    show "\<exists>x. call r input start stack = Some x"
      using haltsD [OF assms(1) _ assms(2)] Cons.prems by simp
  next
    fix x
    show "\<exists>y. (case x of Some r' \<Rightarrow> ret (Some r') | None \<Rightarrow> or_fn call rs input start stack)
        = Some y"
      using Cons.IH Cons.prems by (cases x) (simp_all add: ret_def)
  qed
qed

lemma orLongest_for_total:
  assumes "halts call input stack U" and "start \<le> length input"
  shows "set rs \<subseteq> U \<Longrightarrow> \<exists>out. orLongest_for call rs input start stack longest = Some out"
proof (induction rs arbitrary: longest)
  case Nil
  show ?case by (simp add: ret_def)
next
  case (Cons r rs)
  show ?case
    unfolding orLongest_for.simps
  proof (rule andThen_total)
    show "\<exists>x. call r input start stack = Some x"
      using haltsD [OF assms(1) _ assms(2)] Cons.prems by simp
  next
    fix x
    show "\<exists>y. orLongest_for call rs input start stack (keep_longer longest x) = Some y"
      using Cons.IH Cons.prems by simp
  qed
qed

lemma rep_sep_total:
  assumes "halts call input stack U" and "set_option sep \<subseteq> U" and "e \<le> length input"
  shows "\<exists>out. rep_sep call sep input e stack = Some out"
proof (cases sep)
  case None
  then show ?thesis by (simp add: rep_sep_def ret_def)
next
  case (Some sp)
  have "\<exists>y. andThen (call sp input e stack)
      (\<lambda>sepResult. case sepResult of None \<Rightarrow> ret None | Some (_, e') \<Rightarrow> ret (Some e')) = Some y"
  proof (rule andThen_total)
    show "\<exists>x. call sp input e stack = Some x"
      using haltsD [OF assms(1) _ assms(3)] assms(2) Some by simp
  next
    fix x
    show "\<exists>y. (case x of None \<Rightarrow> ret None | Some (_, e') \<Rightarrow> ret (Some e')) = Some y"
      by (cases x) (auto simp: ret_def)
  qed
  with Some show ?thesis by (simp add: rep_sep_def)
qed

lemma rep_while_total:
  assumes "halts call input stack U" and "bounded input call"
    and "rule \<in> U" and "set_option sep \<subseteq> U"
    and prog: "\<And>s v e'. call rule input s stack = Some (Inr (Some (v, e'))) \<Longrightarrow> s < e'"
  shows "e \<le> length input \<Longrightarrow> length input - e < k
     \<Longrightarrow> \<exists>out. rep_while k call rule sep input stack results e = Some out"
proof (induction k arbitrary: results e)
  case 0
  then show ?case by simp
next
  case (Suc k)
  show ?case
    unfolding rep_while.simps
  proof (rule andThen_total)
    show "\<exists>x. rep_sep call sep input e stack = Some x"
      using assms(1,4) Suc.prems(1) by (rule rep_sep_total)
  next
    fix nxt assume sp: "rep_sep call sep input e stack = Some (Inr nxt)"
    show "\<exists>y. (case nxt of None \<Rightarrow> ret (results, e)
        | Some s \<Rightarrow> andThen (call rule input s stack)
            (\<lambda>result. case result of None \<Rightarrow> ret (results, e)
               | Some (v, e') \<Rightarrow> rep_while k call rule sep input stack (results @ [v]) e'))
        = Some y"
    proof (cases nxt)
      case None
      then show ?thesis by (simp add: ret_def)
    next
      case (Some s)
      with sp have s: "e \<le> s \<and> s \<le> length input"
        using rep_sep_bounded [OF _ assms(2) Suc.prems(1)] by simp
      have "\<exists>y. andThen (call rule input s stack)
            (\<lambda>result. case result of None \<Rightarrow> ret (results, e)
               | Some (v, e') \<Rightarrow> rep_while k call rule sep input stack (results @ [v]) e')
          = Some y"
      proof (rule andThen_total)
        show "\<exists>x. call rule input s stack = Some x"
          using haltsD [OF assms(1,3)] s by simp
      next
        fix x assume c: "call rule input s stack = Some (Inr x)"
        show "\<exists>y. (case x of None \<Rightarrow> ret (results, e)
               | Some (v, e') \<Rightarrow> rep_while k call rule sep input stack (results @ [v]) e')
            = Some y"
        proof (cases x)
          case None
          then show ?thesis by (simp add: ret_def)
        next
          case (Some ve)
          obtain v e' where ve: "ve = (v, e')" by (cases ve)
          from boundedD [OF assms(2) _ c] s Some ve have b: "e' \<le> length input" by simp
          from prog [of s v e'] c Some ve have "s < e'" by simp
          with s b Suc.prems(2) have "length input - e' < k" by arith
          from Suc.IH [OF b this] Some ve show ?thesis by simp
        qed
      qed
      with Some show ?thesis by simp
    qed
  qed
qed

lemma rep_fn_total:
  assumes "halts call input stack U" and "bounded input call"
    and "rule \<in> U" and "set_option sep \<subseteq> U"
    and prog: "\<And>s v e'. call rule input s stack = Some (Inr (Some (v, e'))) \<Longrightarrow> s < e'"
    and "start \<le> length input" and "length input < k"
  shows "\<exists>out. rep_fn k call rule sep mn mx input start stack = Some out"
  unfolding rep_fn_def rep_collect_def
proof (rule andThen_total, rule andThen_total)
  show "\<exists>x. call rule input start stack = Some x"
    using haltsD [OF assms(1,3,6)] .
next
  fix x assume c: "call rule input start stack = Some (Inr x)"
  show "\<exists>y. (case x of None \<Rightarrow> ret ([], start)
      | Some (v, e) \<Rightarrow> rep_while k call rule sep input stack [v] e) = Some y"
  proof (cases x)
    case None
    then show ?thesis by (simp add: ret_def)
  next
    case (Some ve)
    obtain v e where ve: "ve = (v, e)" by (cases ve)
    from boundedD [OF assms(2,6) c] Some ve have b: "e \<le> length input" by simp
    from assms(7) have "length input - e < k" by simp
    from rep_while_total [OF assms(1,2,3,4) prog b this] Some ve show ?thesis by simp
  qed
next
  fix m :: "'a val list \<times> nat"
  show "\<exists>y. ret (rep_accept mn mx m) = Some y" by (simp add: ret_def)
qed

lemma single_call_total:
  assumes "halts call input stack U" and "r \<in> U" and "start \<le> length input"
    and "\<And>x. \<exists>y. f x = Some y"
  shows "\<exists>y. andThen (call r input start stack) f = Some y"
  using haltsD [OF assms(1,2,3)] assms(4) by (rule andThen_total)

lemma applyInternal_total:
  assumes "halts call input stack U" and "bounded input call"
    and "callees p fn \<subseteq> U"
    and "\<And>k. fn = SubFn k \<Longrightarrow> rules p k \<noteq> None"
    and "\<And>rule sep mn mx s v e'. fn = RepFn rule sep mn mx
          \<Longrightarrow> call rule input s stack = Some (Inr (Some (v, e'))) \<Longrightarrow> s < e'"
    and "start \<le> length input" and "length input < n"
  shows "\<exists>out. applyInternal n call p fn input start stack = Some out"
proof (cases fn)
  case (RepFn rule sep mn mx)
  with assms(3) have "rule \<in> U" and "set_option sep \<subseteq> U" by auto
  with RepFn rep_fn_total [OF assms(1,2) _ _ assms(5) [OF RepFn] assms(6,7)]
  show ?thesis by simp
next
  case (ConcatFn rs)
  with assms concat_for_total [OF assms(1,2), of rs] show ?thesis
    by (simp add: concat_fn_def)
next
  case (NotFn r)
  with assms(3) show ?thesis
    by (auto simp: not_fn_def ret_def split: option.splits
          intro!: single_call_total [OF assms(1) _ assms(6)])
next
  case (OrFn rs)
  with assms or_fn_total [OF assms(1,6), of rs] show ?thesis by simp
next
  case (OrLongestFn rs)
  with assms orLongest_for_total [OF assms(1,6), of rs] show ?thesis
    by (simp add: orLongest_fn_def)
next
  case (FirstFn r)
  with assms(3) show ?thesis
    by (auto simp: first_fn_def ret_def split: option.splits
          intro!: single_call_total [OF assms(1) _ assms(6)])
next
  case (LastFn r)
  with assms(3) show ?thesis
    by (auto simp: last_fn_def ret_def split: option.splits
          intro!: single_call_total [OF assms(1) _ assms(6)])
next
  case (MapFn r f)
  with assms(3) show ?thesis
    by (auto simp: map_fn_def ret_def split: option.splits
          intro!: single_call_total [OF assms(1) _ assms(6)])
next
  case (FilterFn r f)
  with assms(3) show ?thesis
    by (auto simp: filter_fn_def ret_def split: option.splits
          intro!: single_call_total [OF assms(1) _ assms(6)])
next
  case (FilterMapFn r f)
  with assms(3) show ?thesis
    by (auto simp: filterMap_fn_def ret_def split: option.splits
          intro!: single_call_total [OF assms(1) _ assms(6)])
next
  case (OptFn r)
  with assms(3) show ?thesis
    by (auto simp: opt_fn_def ret_def split: option.splits
          intro!: single_call_total [OF assms(1) _ assms(6)])
next
  case (TokenFn k)
  then show ?thesis by (simp add: token_fn_def ret_def Let_def)
next
  case (SubFn k)
  with assms(4) [of k] obtain r where r: "rules p k = Some r" by auto
  with SubFn assms(3) have "r \<in> U" by simp
  from haltsD [OF assms(1) this assms(6)] SubFn r show ?thesis
    by (simp add: sub_fn_def)
qed

lemma ex_list_all2:
  "\<forall>x \<in> set xs. \<exists>y. P x y \<Longrightarrow> \<exists>ys. list_all2 P xs ys"
proof (induction xs)
  case Nil
  show ?case by simp
next
  case (Cons x xs)
  then obtain y ys where "P x y" and "list_all2 P xs ys" by auto
  then have "list_all2 P (x # xs) (y # ys)" by simp
  then show ?case ..
qed

lemma fuel_for_all:
  assumes "finite U"
    and "\<forall>r \<in> U. \<forall>start \<le> length input. \<exists>n out. run p n r input start stack = Some out"
  shows "\<exists>N. K \<le> N \<and> halts (run p N) input stack U"
proof -
  let ?S = "U \<times> {..length input}"
  have "finite ?S" using assms(1) by simp
  moreover have "\<forall>x \<in> ?S. \<exists>n. \<exists>out. run p n (fst x) input (snd x) stack = Some out"
    using assms(2) by auto
  ultimately obtain f where f: "\<forall>x \<in> ?S. \<exists>out. run p (f x) (fst x) input (snd x) stack = Some out"
    using finite_set_choice [of ?S "\<lambda>x n. \<exists>out. run p n (fst x) input (snd x) stack = Some out"]
    by blast
  let ?N = "Max (insert K (f ` ?S))"
  have fin: "finite (insert K (f ` ?S))" using \<open>finite ?S\<close> by simp
  have "halts (run p ?N) input stack U"
    unfolding halts_def
  proof (intro ballI allI impI)
    fix r start assume "r \<in> U" and "start \<le> length input"
    then have x: "(r, start) \<in> ?S" by simp
    with f obtain out where "run p (f (r, start)) r input start stack = Some out" by fastforce
    moreover from x have "f (r, start) \<le> ?N" using fin by (intro Max_ge) auto
    ultimately have "run p ?N r input start stack = Some out"
      using approxD [OF run_mono] by blast
    then show "\<exists>out. run p ?N r input start stack = Some out" ..
  qed
  moreover have "K \<le> ?N" using fin by (intro Max_ge) auto
  ultimately show ?thesis by blast
qed

lemma guarded_calls_halt:
  assumes "closed_grammar p U" and "progressing p input U"
  shows "\<forall>r \<in> U. \<forall>start \<le> length input. \<exists>n out. run p n r input start stack = Some out"
proof -
  define M where "M = (\<lambda>(r, start). stackItem (name r) start) ` (U \<times> {..length input})"
  from assms(1) have finU: "finite U" by (simp add: closed_grammar_def)
  then have finM: "finite M" unfolding M_def by simp
  show ?thesis
  proof (induction stack rule: measure_induct_rule [where f = "\<lambda>stack. card (M - set stack)"])
    case (less stack)
    show ?case
    proof (intro ballI allI impI)
      fix r start assume r: "r \<in> U" and start: "start \<le> length input"
      let ?item = "stackItem (name r) start"
      show "\<exists>n out. run p n r input start stack = Some out"
      proof (cases "?item \<in> set stack")
        case True
        then have "run p (Suc 0) r input start stack
            = throw (LoopDetected (loopMessage stack ?item))"
          by (simp add: run_Suc)
        then show ?thesis unfolding throw_def by blast
      next
        case False
        let ?stack = "stack @ [?item]"
        from r start have "?item \<in> M" unfolding M_def by force
        with False have "?item \<in> M - set stack" by simp
        with finM have "card ((M - set stack) - {?item}) < card (M - set stack)"
          by (intro card_Diff1_less) simp_all
        moreover have "M - set ?stack = (M - set stack) - {?item}" by auto
        ultimately have "card (M - set ?stack) < card (M - set stack)"
          by (simp only:)
        from less.IH [OF this] obtain N
          where N: "Suc (length input) \<le> N" and h: "halts (run p N) input ?stack U"
          using fuel_for_all [OF finU, of input p ?stack "Suc (length input)"] by blast
        have "\<exists>out. applyInternal N (run p N) p (parseInternal r) input start ?stack = Some out"
        proof (rule applyInternal_total [OF h run_bounded])
          show "callees p (parseInternal r) \<subseteq> U"
            using assms(1) r by (simp add: closed_grammar_def)
          show "rules p k \<noteq> None" if "parseInternal r = SubFn k" for k
            using assms(1) r that by (auto simp: closed_grammar_def)
          show "s < e'" if "parseInternal r = RepFn rule sep mn mx"
            and "run p N rule input s ?stack = Some (Inr (Some (v, e')))" for rule sep mn mx s v e'
          proof -
            from that(2) have "returns p rule input s ?stack (Inr (Some (v, e')))"
              unfolding returns_def by blast
            with assms(2) r that(1) show ?thesis unfolding progressing_def by blast
          qed
          show "start \<le> length input" by fact
          show "length input < N" using N by simp
        qed
        with False have "\<exists>out. run p (Suc N) r input start stack = Some out"
          by (simp add: run_Suc)
        then show ?thesis by blast
      qed
    qed
  qed
qed

theorem guarded_parse_terminates:
  assumes "closed_grammar p U" and "progressing p input U"
  shows "\<exists>out. Parser_returns p input out"
proof -
  from assms(1) have finU: "finite U" by (simp add: closed_grammar_def)
  from assms(1) have "\<forall>root \<in> set (roots p). \<exists>r. r \<in> U \<and> rules p root = Some r"
    by (auto simp: closed_grammar_def)
  then have "\<exists>rs. list_all2 (\<lambda>root r. r \<in> U \<and> rules p root = Some r) (roots p) rs"
    by (rule ex_list_all2)
  then obtain rs where rs: "list_all2 (\<lambda>root r. r \<in> U \<and> rules p root = Some r) (roots p) rs" ..
  then have reg: "list_all2 (\<lambda>root r. rules p root = Some r) (roots p) rs"
    by (rule list_all2_mono) simp
  from rs have sub: "set rs \<subseteq> U"
    by (auto simp: list_all2_conv_all_nth in_set_conv_nth)
  from guarded_calls_halt [OF assms, of "[]"] obtain N where "halts (run p N) input [] U"
    using fuel_for_all [OF finU, of input p "[]" 0] by blast
  then have "\<exists>out. orLongest_for (run p N) rs input 0 [] None = Some out"
    using sub by (intro orLongest_for_total) simp_all
  then have "\<exists>out. Parser_parse (run p N) p input = Some out"
    unfolding Parser_parse_def roots_for_registered [OF reg]
    by (rule andThen_total) (auto simp: throw_def ret_def split: option.splits)
  then show ?thesis unfolding Parser_returns_def by blast
qed

lemma returns_loop_error:
  assumes "closed_grammar p U" and "r \<in> U" and "returns p r input start stack (Inl e)"
  shows "loop_error e"
proof -
  have "throws_in U loop_error (run p n)" for n
    using assms(1) by (intro run_throws_in) (auto simp: closed_grammar_def)
  with assms(2,3) show ?thesis
    unfolding returns_def by (auto dest: throws_inD)
qed

lemma some_throws_loop_error:
  assumes "closed_grammar p U" and "set rs \<subseteq> U" and "some_throws p input start stack rs e"
  shows "loop_error e"
proof -
  from assms(3) obtain pre option post where "rs = pre @ option # post"
    and t: "returns p option input start stack (Inl e)"
    unfolding some_throws_def by blast
  with assms(2) have "option \<in> U" by auto
  with assms(1) show ?thesis using t by (rule returns_loop_error)
qed

text \<open>
  For every closed grammar that is progressing on the input, the top-level parse returns a
  value or throws one of the three errors of the engine.
\<close>

theorem guarded_parse_returns:
  assumes "closed_grammar p U" and "progressing p input U"
  shows "\<exists>out. Parser_returns p input out \<and> out \<noteq> Inl TypeError"
proof -
  from guarded_parse_terminates [OF assms] obtain out where out: "Parser_returns p input out" ..
  from assms(1) have "\<forall>root \<in> set (roots p). \<exists>r. r \<in> U \<and> rules p root = Some r"
    by (auto simp: closed_grammar_def)
  then have "\<exists>rs. list_all2 (\<lambda>root r. r \<in> U \<and> rules p root = Some r) (roots p) rs"
    by (rule ex_list_all2)
  then obtain rs where rs: "list_all2 (\<lambda>root r. r \<in> U \<and> rules p root = Some r) (roots p) rs" ..
  then have reg: "list_all2 (\<lambda>root r. rules p root = Some r) (roots p) rs"
    by (rule list_all2_mono) simp
  from rs have sub: "set rs \<subseteq> U"
    by (auto simp: list_all2_conv_all_nth in_set_conv_nth)
  have "out \<noteq> Inl TypeError"
  proof
    assume "out = Inl TypeError"
    with out have "some_throws p input 0 [] rs TypeError"
      unfolding Parser_returns_iff [OF reg] by auto
    with assms(1) sub have "loop_error (TypeError :: 'a error)"
      by (rule some_throws_loop_error)
    then show False by simp
  qed
  with out show ?thesis by blast
qed

lemma digits_parse_terminates: "\<exists>out. Parser_returns digits input out"
proof (rule guarded_parse_terminates)
  show "closed_grammar digits {number, token ''digit''}"
    by (auto simp: closed_grammar_def digits_def new_Parser_def number_def withName_def
          rep_def repInternal_def token_def)
  show "progressing digits input {number, token ''digit''}"
    unfolding progressing_def
  proof (intro ballI allI impI)
    fix r rule sep mn mx start stack v e
    assume "r \<in> {number, token ''digit''}" and "parseInternal r = RepFn rule sep mn mx"
      and ret: "returns digits rule input start stack (Inr (Some (v, e)))"
    then have "rule = token ''digit''"
      by (auto simp: number_def withName_def rep_def repInternal_def token_def)
    with ret show "start < e"
      by (auto simp: returns_iff applies_TokenFn token_def token_fn_def ret_def Let_def
            split: if_splits)
  qed
qed

text \<open>
  A rule that is entered again at the same offset is stopped by the recursion guard: the
  parse of the grammar \<^verbatim>\<open>expr = sub(expr)\<close> throws the loop error on every input.
\<close>

lemma self_reference_detected:
  "Parser_returns self_reference input
     (Inl (LoopDetected (loopMessage [''expr:0''] ''expr:0'')))"
  unfolding Parser_returns_def
  by (rule exI [of _ "Suc (Suc (Suc 0))"])
    (simp add: Parser_parse_def self_reference_def new_Parser_def run_Suc withName_def sub_def
      sub_fn_def stackItem_def throw_def)

text \<open>
  The loop of a repetition is not: it calls the element on the same path at every
  iteration, so the guard of the element never sees an earlier iteration. When the
  element never fails, the loop has not left at any bound.
\<close>

lemma rep_while_never_leaves:
  assumes "\<And>start out. call rule input start stack = Some out \<Longrightarrow> \<exists>r. out = Inr (Some r)"
  shows "rep_while k call rule None input stack results e = None"
proof (induction k arbitrary: results e)
  case 0
  show ?case by simp
next
  case (Suc k)
  show ?case
  proof (cases "call rule input e stack")
    case None
    then show ?thesis by (simp add: rep_sep_def)
  next
    case (Some out)
    with assms obtain v e' where "out = Inr (Some (v, e'))" by fastforce
    with Some Suc.IH show ?thesis by (simp add: rep_sep_def)
  qed
qed

lemma opt_token_never_fails:
  assumes "run p n (opt (token ''a'')) input start [stackItem ''list'' 0] = Some out"
  shows "\<exists>r. out = Inr (Some r)"
proof -
  from assms obtain m where m: "n = Suc m" by (cases n) auto
  show ?thesis
  proof (cases m)
    case 0
    with assms m show ?thesis
      by (simp add: run_Suc opt_def token_def opt_fn_def stackItem_inj)
  next
    case (Suc k)
    with assms m show ?thesis
      by (auto simp: run_Suc opt_def token_def opt_fn_def token_fn_def stackItem_inj ret_def
            Let_def split: if_splits)
  qed
qed

text \<open>
  Claim C1 asks that every top-level parse returns a value or throws one of the three
  errors, also when the element of a repetition matches without consuming input. The
  code does not: the top-level parse of the grammar \<^verbatim>\<open>list = star(opt(token(a)))\<close> has
  no outcome at any bound, on any input. At the end of the tokens \<^verbatim>\<open>opt\<close> matches with the
  end offset unchanged, and the loop of \<^verbatim>\<open>repInternal\<close> goes on. This is the one way a
  parse of a closed grammar fails to come back, as \<open>guarded_parse_returns\<close> shows.
\<close>

theorem star_of_opt_never_returns: "\<not> Parser_returns nullable_star input out"
proof
  assume "Parser_returns nullable_star input out"
  then obtain n where n: "Parser_parse (run nullable_star n) nullable_star input = Some out"
    by (auto simp: Parser_returns_def)
  let ?list = "withName ''list'' (star (opt (token ''a'')) None) :: nat ParserRule"
  have "run nullable_star n ?list input 0 [] = None"
  proof (cases n)
    case 0
    then show ?thesis by simp
  next
    case (Suc m)
    have loop: "rep_while m (run nullable_star m) (opt (token ''a'')) None input
        [stackItem ''list'' 0] results e = None" for results e
      by (rule rep_while_never_leaves) (rule opt_token_never_fails)
    show ?thesis
    proof (cases "run nullable_star m (opt (token ''a'')) input 0 [stackItem ''list'' 0]")
      case None
      with Suc show ?thesis
        by (simp add: run_Suc withName_def star_def repInternal_def rep_fn_def rep_collect_def)
    next
      case (Some first)
      with opt_token_never_fails obtain v e where "first = Inr (Some (v, e))" by fastforce
      with Some Suc loop show ?thesis
        by (simp add: run_Suc withName_def star_def repInternal_def rep_fn_def rep_collect_def)
    qed
  qed
  with n show False
    by (simp add: Parser_parse_def nullable_star_def new_Parser_def)
qed

section \<open>Renaming a rule: the same outcome, or the loop error\<close>

text \<open>
  The path is read by the recursion guard only. Running a rule on two paths therefore
  gives, with the same fuel, the same outcome, unless one of the two runs ends in the loop
  error: every combinator passes its path to the rules it calls and does nothing else
  with it, and an outcome of a called rule that is not the loop error is the same on both
  paths, by induction on the fuel.
\<close>

lemma is_loop_simps [simp]:
  "\<not> is_loop (Inr x)"
  "is_loop (Inl e) \<longleftrightarrow> loop_error e"
  by (simp_all add: is_loop_def)

lemma loop_error_iff: "loop_error e \<longleftrightarrow> (\<exists>msg. e = LoopDetected msg)"
  by (cases e) simp_all

lemma agree_refl [simp]: "agree m m"
  by (simp add: agree_def)

lemma agree_None [simp]: "agree None m"
  by (simp add: agree_def)

lemma agree_loop [simp]: "agree m (Some (Inl (LoopDetected msg)))"
  by (simp add: agree_def)

lemma agree_from_loop [simp]: "agree (Some (Inl (LoopDetected msg))) m"
  by (simp add: agree_def)

















end
